theory Spec2Isabelle
  imports Main "HOL-Library.Word"
begin

unbundle bit_operations_syntax

section \<open>Boards as 8 by 8 arrays\<close>

text \<open>
  Both programs keep the board in a C array \<^verbatim>\<open>fields[8][8]\<close>. It is modelled as a list of
  rows. An index expression \<^verbatim>\<open>fields[r][c]\<close> is \<open>cell fields r c\<close>, an assignment to it is
  \<open>store fields r c v\<close>. The array type fixes the shape; in the model the shape is the
  predicate \<open>grid\<close>. The sources index the array only after \<^verbatim>\<open>ValidCoords\<close> or inside the
  loops over \<^verbatim>\<open>0..7\<close>; where a function indexes with a caller-supplied coordinate, the model
  returns \<open>None\<close> when that coordinate is outside the array (undefined behaviour in C++).
\<close>

definition cell :: "'a list list \<Rightarrow> int \<Rightarrow> int \<Rightarrow> 'a" where
  "cell fs r c = fs ! nat r ! nat c"

definition store :: "'a list list \<Rightarrow> int \<Rightarrow> int \<Rightarrow> 'a \<Rightarrow> 'a list list" where
  "store fs r c v = fs[nat r := (fs ! nat r)[nat c := v]]"

definition grid :: "'a list list \<Rightarrow> bool" where
  "grid fs = (length fs = 8 \<and> list_all (\<lambda>row. length row = 8) fs)"

text \<open>\<^verbatim>\<open>for (r = 0; r < 8; ++r) for (c = 0; c < 8; ++c)\<close>: the cells in the order both
  programs visit them.\<close>

definition all_cells :: "(int \<times> int) list" where
  "all_cells = concat (map (\<lambda>r. map (\<lambda>c. (r, c)) [0..7]) [0..7])"

text \<open>\<^verbatim>\<open>for (dr = -1; dr <= 1; ++dr) for (dc = -1; dc <= 1; ++dc)\<close>.\<close>

definition directions :: "(int \<times> int) list" where
  "directions = concat (map (\<lambda>dr. map (\<lambda>dc. (dr, dc)) [-1, 0, 1]) [-1, 0, 1])"

record Move =
  row :: int
  col :: int

section \<open>The arbiter\<close>

definition SIZE :: int where
  "SIZE = 8"

definition MAX_MOVES :: int where
  "MAX_MOVES = 60"

text \<open>\<^verbatim>\<open>struct State { char fields[SIZE][SIZE]; int moves_played; }\<close>. A \<^verbatim>\<open>char\<close> is an
  8-bit word, read as a signed value where the source converts it to \<^verbatim>\<open>int\<close>.\<close>

record State =
  s_fields :: "8 word list list"
  moves_played :: int

definition InitialState :: State where
  "InitialState =
     (let f0 = replicate 8 (replicate 8 (0 :: 8 word));
          f1 = store f0 (SIZE div 2 - 1) (SIZE div 2 - 1) 1;
          f2 = store f1 (SIZE div 2 - 1) (SIZE div 2 - 0) 2;
          f3 = store f2 (SIZE div 2 - 0) (SIZE div 2 - 1) 2;
          f4 = store f3 (SIZE div 2 - 0) (SIZE div 2 - 0) 1
      in \<lparr>s_fields = f4, moves_played = 0\<rparr>)"

definition ValidCoords :: "int \<Rightarrow> int \<Rightarrow> bool" where
  "ValidCoords r c = (0 \<le> r \<and> r < SIZE \<and> 0 \<le> c \<and> c < SIZE)"

text \<open>\<^verbatim>\<open>++scores[int{state.fields[r][c]}]\<close> indexes a three-element array: a cell value
  outside \<open>0..2\<close> is an out-of-bounds write, \<open>None\<close> here.\<close>

definition CalculateScore_step :: "State \<Rightarrow> int \<times> int \<Rightarrow> int list option \<Rightarrow> int list option" where
  "CalculateScore_step state rc acc =
     (case acc of
        None \<Rightarrow> None
      | Some scores \<Rightarrow>
          (let i = sint (cell (s_fields state) (fst rc) (snd rc))
           in if 0 \<le> i \<and> i < 3 then Some (scores[nat i := scores ! nat i + 1]) else None))"

definition CalculateScore :: "State \<Rightarrow> int option" where
  "CalculateScore state =
     (case fold (CalculateScore_step state) all_cells (Some [0, 0, 0]) of
        None \<Rightarrow> None
      | Some scores \<Rightarrow> Some (scores ! 1 - scores ! 2))"

definition IsGameOver :: "State \<Rightarrow> bool" where
  "IsGameOver state = (moves_played state \<ge> MAX_MOVES)"

definition GetNextPlayer :: "State \<Rightarrow> int" where
  "GetNextPlayer state = moves_played state AND 1"

text \<open>A \<^verbatim>\<open>char\<close> converted to \<^verbatim>\<open>int\<close> (signed, as on the platforms the programs target),
  and an \<^verbatim>\<open>int\<close> stored into a \<^verbatim>\<open>char\<close> (the low eight bits).\<close>

definition int_of_char :: "char \<Rightarrow> int" where
  "int_of_char ch = (if of_char ch < (128 :: int) then of_char ch else of_char ch - 256)"

definition FormatMove :: "Move \<Rightarrow> string" where
  "FormatMove move =
     (let s = replicate 2 (CHR 0x00);
          s = s[0 := char_of (int_of_char CHR ''A'' + row move)];
          s = s[1 := char_of (int_of_char CHR ''1'' + col move)]
      in s)"

definition ParseMove :: "string \<Rightarrow> Move option" where
  "ParseMove s =
     (if length s \<noteq> 2 then None
      else
        (let row = int_of_char (s ! 0) - int_of_char CHR ''A'';
             col = int_of_char (s ! 1) - int_of_char CHR ''1''
         in if \<not> ValidCoords row col then None else Some \<lparr>row = row, col = col\<rparr>))"

definition HasOccupiedNeighbor :: "State \<Rightarrow> int \<Rightarrow> int \<Rightarrow> bool" where
  "HasOccupiedNeighbor state r c =
     list_ex (\<lambda>r2. list_ex (\<lambda>c2.
         (r2 \<noteq> r \<or> c2 \<noteq> c) \<and> ValidCoords r2 c2 \<and> cell (s_fields state) r2 c2 \<noteq> 0)
       [c - 1 .. c + 1]) [r - 1 .. r + 1]"

text \<open>
  \<^verbatim>\<open>FindFlips\<close> is a template over a callback that may change the state it is scanning
  (\<^verbatim>\<open>ExecuteMove\<close> passes a lambda that captures the same \<^verbatim>\<open>state\<close> by reference). The
  callback is therefore a state transformer, and each direction is scanned in the state
  the callbacks of the directions before it have left.

  The first inner loop \<^verbatim>\<open>for (int n = 1; ; ++n)\<close> has no bound of its own: it is a partial
  function, \<open>None\<close> when it does not return.
\<close>

partial_function (option) FindFlips_scan ::
  "State \<Rightarrow> int \<Rightarrow> int \<Rightarrow> int \<Rightarrow> int \<Rightarrow> int \<Rightarrow> int \<Rightarrow> int \<Rightarrow> int option" where
  "FindFlips_scan state player r c dr dc n last_n =
     (if \<not> ValidCoords (r + n * dr) (c + n * dc) \<or> cell (s_fields state) (r + n * dr) (c + n * dc) = 0
      then Some last_n
      else FindFlips_scan state player r c dr dc (n + 1)
             (if sint (cell (s_fields state) (r + n * dr) (c + n * dc)) = player then n else last_n))"

declare FindFlips_scan.simps [code]

fun FindFlips_calls ::
  "(int \<Rightarrow> int \<Rightarrow> State \<Rightarrow> bool \<times> State) \<Rightarrow> int \<Rightarrow> int \<Rightarrow> int \<Rightarrow> int \<Rightarrow> int list \<Rightarrow> State \<Rightarrow> bool \<times> State" where
  "FindFlips_calls callback r c dr dc [] state = (True, state)"
| "FindFlips_calls callback r c dr dc (n # ns) state =
     (case callback (r + n * dr) (c + n * dc) state of
        (ok, state') \<Rightarrow>
          if \<not> ok then (False, state') else FindFlips_calls callback r c dr dc ns state')"

fun FindFlips_dirs ::
  "(int \<Rightarrow> int \<Rightarrow> State \<Rightarrow> bool \<times> State) \<Rightarrow> int \<Rightarrow> int \<Rightarrow> int \<Rightarrow> (int \<times> int) list \<Rightarrow> State \<Rightarrow> (bool \<times> State) option" where
  "FindFlips_dirs callback player r c [] state = Some (True, state)"
| "FindFlips_dirs callback player r c ((dr, dc) # ds) state =
     (if dr \<noteq> 0 \<or> dc \<noteq> 0 then
        (case FindFlips_scan state player r c dr dc 1 0 of
           None \<Rightarrow> None
         | Some last_n \<Rightarrow>
             (case FindFlips_calls callback r c dr dc [1 .. last_n - 1] state of
                (ok, state') \<Rightarrow>
                  if \<not> ok then Some (False, state')
                  else FindFlips_dirs callback player r c ds state'))
      else FindFlips_dirs callback player r c ds state)"

definition FindFlips ::
  "State \<Rightarrow> int \<Rightarrow> int \<Rightarrow> int \<Rightarrow> (int \<Rightarrow> int \<Rightarrow> State \<Rightarrow> bool \<times> State) \<Rightarrow> (bool \<times> State) option" where
  "FindFlips state player r c callback = FindFlips_dirs callback player r c directions state"

text \<open>The two callbacks of the source: \<^verbatim>\<open>[](int, int) { return false; }\<close> and
  \<^verbatim>\<open>[&state](int r, int c) { state.fields[r][c] ^= 3; return true; }\<close>.\<close>

definition abort_callback :: "int \<Rightarrow> int \<Rightarrow> State \<Rightarrow> bool \<times> State" where
  "abort_callback r c state = (False, state)"

definition flip_callback :: "int \<Rightarrow> int \<Rightarrow> State \<Rightarrow> bool \<times> State" where
  "flip_callback r c state =
     (True, state\<lparr>s_fields := store (s_fields state) r c (cell (s_fields state) r c XOR 3)\<rparr>)"

fun ListValidMoves_flipping :: "State \<Rightarrow> int \<Rightarrow> Move list \<Rightarrow> Move list option" where
  "ListValidMoves_flipping state player [] = Some []"
| "ListValidMoves_flipping state player (move # moves) =
     (case FindFlips state player (row move) (col move) abort_callback of
        None \<Rightarrow> None
      | Some (ok, _) \<Rightarrow>
          (case ListValidMoves_flipping state player moves of
             None \<Rightarrow> None
           | Some flipping_moves \<Rightarrow>
               Some (if \<not> ok then move # flipping_moves else flipping_moves)))"

definition ListValidMoves_all :: "State \<Rightarrow> Move list" where
  "ListValidMoves_all state =
     map (\<lambda>(r, c). \<lparr>row = r, col = c\<rparr>)
       (filter (\<lambda>(r, c). cell (s_fields state) r c = 0 \<and> HasOccupiedNeighbor state r c) all_cells)"

definition ListValidMoves :: "State \<Rightarrow> Move list option" where
  "ListValidMoves state =
     (let all_moves = ListValidMoves_all state;
          player = (moves_played state AND 1) + 1
      in case ListValidMoves_flipping state player all_moves of
           None \<Rightarrow> None
         | Some flipping_moves \<Rightarrow>
             Some (if flipping_moves = [] then all_moves else flipping_moves))"

text \<open>\<^verbatim>\<open>ValidateMove\<close> returns whether the move is valid and, when it is not, the text it
  writes to \<^verbatim>\<open>*reason\<close>.\<close>

definition ValidateMove :: "State \<Rightarrow> Move \<Rightarrow> (bool \<times> string) option" where
  "ValidateMove state move =
     (case ListValidMoves state of
        None \<Rightarrow> None
      | Some valid_moves \<Rightarrow>
          if move \<notin> set valid_moves
          then Some (False, fold (\<lambda>m reason. reason @ '' '' @ FormatMove m) valid_moves ''Valid moves:'')
          else Some (True, []))"

text \<open>\<^verbatim>\<open>state.fields[move.row][move.col] = player\<close> writes outside the array when the move
  is not on the board: \<open>None\<close>.\<close>

definition ExecuteMove :: "State \<Rightarrow> Move \<Rightarrow> State option" where
  "ExecuteMove state move =
     (let player = (moves_played state AND 1) + 1
      in case FindFlips state player (row move) (col move) flip_callback of
           None \<Rightarrow> None
         | Some (_, state1) \<Rightarrow>
             if ValidCoords (row move) (col move)
             then Some (state1\<lparr>s_fields := store (s_fields state1) (row move) (col move) (word_of_int player),
                              moves_played := moves_played state1 + 1\<rparr>)
             else None)"

definition EncodeHistory :: "Move list \<Rightarrow> string" where
  "EncodeHistory moves = fold (\<lambda>move s. s @ FormatMove move) moves []"

subsection \<open>One match\<close>

text \<open>
  \<^verbatim>\<open>RunGame\<close> talks to two child processes. What they do is the environment of the model:
  whether the write of \<^verbatim>\<open>Start\<close> succeeded, what \<^verbatim>\<open>read()\<close> returned in the iteration that
  starts with a given number of moves played, and whether the write that forwards that
  iteration's move succeeded. Every iteration of the loop either leaves it or plays one
  more move, so the number of moves played names the iteration. The wall-clock times of
  \<^verbatim>\<open>GameResult\<close> are not modelled. What the source prints to \<^verbatim>\<open>stderr\<close> is kept as a list of
  diagnostics, each holding the arguments of its \<^verbatim>\<open>fprintf\<close>.
\<close>

datatype read_result = ReadFailed | ReadBytes string

datatype diag =
    ReadError
  | EndOfFile
  | NoEndOfLine
  | ExtraData
  | CouldNotSendStart int
  | CouldNotParse int string
  | InvalidMove int string string
  | CouldNotSend string int

record Env =
  start_written :: bool
  read_at :: "int \<Rightarrow> read_result"
  move_written :: "int \<Rightarrow> bool"

record GameResult =
  transcript :: string
  score :: int

text \<open>\<^verbatim>\<open>ReadLine\<close>: \<open>ReadBytes buf\<close> is a \<^verbatim>\<open>read()\<close> that returned \<open>length buf\<close> bytes
  (at most the 1024 it asked for), \<open>ReadFailed\<close> one that returned a negative count.\<close>

definition ReadLine :: "read_result \<Rightarrow> string \<times> diag list" where
  "ReadLine rd =
     (case rd of
        ReadFailed \<Rightarrow> ([], [ReadError])
      | ReadBytes buf \<Rightarrow>
          if length buf = 0 then ([], [EndOfFile])
          else if CHR 0x0A \<notin> set buf then ([], [NoEndOfLine])
          else if length (takeWhile (\<lambda>ch. ch \<noteq> CHR 0x0A) buf) \<noteq> length buf - 1
            then ([], [ExtraData])
          else (take (length buf - 1) buf, []))"

lemma FindFlips_calls_flip_moves_played:
  "moves_played (snd (FindFlips_calls flip_callback r c dr dc ns state)) = moves_played state"
  by (induction ns arbitrary: state) (simp_all add: flip_callback_def)

lemma FindFlips_dirs_flip_moves_played:
  "FindFlips_dirs flip_callback player r c ds state = Some (ok, state')
     \<Longrightarrow> moves_played state' = moves_played state"
proof (induction ds arbitrary: state)
  case Nil
  then show ?case by simp
next
  case (Cons d ds)
  obtain dr dc where d: "d = (dr, dc)" by (cases d)
  show ?case
  proof (cases "dr \<noteq> 0 \<or> dc \<noteq> 0")
    case False
    with Cons d show ?thesis by simp
  next
    case True
    from Cons.prems d True obtain last_n where
      scan: "FindFlips_scan state player r c dr dc 1 0 = Some last_n"
      by (auto split: option.splits)
    obtain ok1 state1 where
      calls: "FindFlips_calls flip_callback r c dr dc [1 .. last_n - 1] state = (ok1, state1)"
      by (cases "FindFlips_calls flip_callback r c dr dc [1 .. last_n - 1] state")
    have mp: "moves_played state1 = moves_played state"
      using FindFlips_calls_flip_moves_played [of r c dr dc "[1 .. last_n - 1]" state] calls
      by simp
    show ?thesis
    proof (cases ok1)
      case False
      with Cons.prems d True scan calls mp show ?thesis by simp
    next
      case True
      with Cons.prems d \<open>dr \<noteq> 0 \<or> dc \<noteq> 0\<close> scan calls
      have "FindFlips_dirs flip_callback player r c ds state1 = Some (ok, state')" by simp
      with Cons.IH mp show ?thesis by simp
    qed
  qed
qed

lemma ExecuteMove_moves_played:
  "ExecuteMove state move = Some state' \<Longrightarrow> moves_played state' = moves_played state + 1"
  by (auto simp: ExecuteMove_def FindFlips_def Let_def
           split: option.splits prod.splits if_splits
           dest: FindFlips_dirs_flip_moves_played)

function RunGame_loop ::
  "Env \<Rightarrow> State \<Rightarrow> Move list \<Rightarrow> bool \<Rightarrow> diag list \<Rightarrow> (State \<times> Move list \<times> diag list) option" where
  "RunGame_loop env state history started log =
     (if IsGameOver state then Some (state, history, log)
      else if \<not> (GetNextPlayer state = 0 \<or> GetNextPlayer state = 1) then None
      else if \<not> started \<and> \<not> start_written env
        then Some (state, history, log @ [CouldNotSendStart (GetNextPlayer state)])
      else
        (case ReadLine (read_at env (moves_played state)) of
           (line, read_log) \<Rightarrow>
             (case ParseMove line of
                None \<Rightarrow>
                  Some (state, history, log @ read_log @ [CouldNotParse (GetNextPlayer state) line])
              | Some move \<Rightarrow>
                  (case ValidateMove state move of
                     None \<Rightarrow> None
                   | Some (valid, reason) \<Rightarrow>
                       if \<not> valid
                       then Some (state, history,
                                  log @ read_log @ [InvalidMove (GetNextPlayer state) line reason])
                       else
                         (case ExecuteMove state move of
                            None \<Rightarrow> None
                          | Some state' \<Rightarrow>
                              if \<not> IsGameOver state' \<and> \<not> move_written env (moves_played state)
                              then Some (state', history @ [move],
                                         log @ read_log @ [CouldNotSend (FormatMove move) (GetNextPlayer state)])
                              else RunGame_loop env state' (history @ [move]) True (log @ read_log))))))"
  by pat_completeness auto
termination
  by (relation "measure (\<lambda>(env, state, history, started, log). nat (MAX_MOVES - moves_played state))")
     (auto simp: IsGameOver_def dest: ExecuteMove_moves_played)

text \<open>The score after the loop. \<^verbatim>\<open>assert(false)\<close> in the last branch is \<open>None\<close>.\<close>

definition RunGame_score :: "State \<Rightarrow> int option" where
  "RunGame_score state =
     (if IsGameOver state then CalculateScore state
      else if GetNextPlayer state = 0 then Some (- 99)
      else if GetNextPlayer state = 1 then Some 99
      else None)"

definition RunGame :: "Env \<Rightarrow> (GameResult \<times> diag list) option" where
  "RunGame env =
     (case RunGame_loop env InitialState [] False [] of
        None \<Rightarrow> None
      | Some (state, history, log) \<Rightarrow>
          (case RunGame_score state of
             None \<Rightarrow> None
           | Some sc \<Rightarrow> Some (\<lparr>transcript = EncodeHistory history, score = sc\<rparr>, log)))"

section \<open>The player\<close>

definition H :: int where
  "H = 8"

definition W :: int where
  "W = 8"

definition MIN_VALUE :: int where
  "MIN_VALUE = - 9999"

definition MAX_VALUE :: int where
  "MAX_VALUE = 9999"

definition MAX_MOVES_player :: nat where
  "MAX_MOVES_player = 60"

text \<open>\<^verbatim>\<open>enum class Player : signed char { NONE = 0, WHITE = 1, BLACK = -1 }\<close>, and \<^verbatim>\<open>Other\<close>,
  which negates the underlying value.\<close>

datatype Player = NONE | WHITE | BLACK

fun int_of_Player :: "Player \<Rightarrow> int" where
  "int_of_Player NONE = 0"
| "int_of_Player WHITE = 1"
| "int_of_Player BLACK = - 1"

definition Player_of_int :: "int \<Rightarrow> Player" where
  "Player_of_int i = (if i = 0 then NONE else if i = 1 then WHITE else BLACK)"

definition Other :: "Player \<Rightarrow> Player" where
  "Other p = Player_of_int (- int_of_Player p)"

record Board =
  b_fields :: "Player list list"
  next_player :: Player

definition InitialBoard :: Board where
  "InitialBoard =
     (let f0 = replicate 8 (replicate 8 NONE);
          f1 = store f0 (H div 2 - 1) (W div 2 - 1) WHITE;
          f2 = store f1 (H div 2 - 1) (W div 2 - 0) BLACK;
          f3 = store f2 (H div 2 - 0) (W div 2 - 1) BLACK;
          f4 = store f3 (H div 2 - 0) (W div 2 - 0) WHITE
      in \<lparr>b_fields = f4, next_player = WHITE\<rparr>)"

definition ValidCoords_player :: "int \<Rightarrow> int \<Rightarrow> bool" where
  "ValidCoords_player r c = (r \<ge> 0 \<and> r < W \<and> c \<ge> 0 \<and> c < W)"

text \<open>\<^verbatim>\<open>operator==\<close> on boards: the 64 cells, then the player to move.\<close>

definition Board_eq :: "Board \<Rightarrow> Board \<Rightarrow> bool" where
  "Board_eq a b =
     (list_all (\<lambda>(r, c). cell (b_fields a) r c = cell (b_fields b) r c) all_cells
      \<and> next_player a = next_player b)"

partial_function (option) HasFlips_scan ::
  "Player list list \<Rightarrow> Player \<Rightarrow> int \<Rightarrow> int \<Rightarrow> int \<Rightarrow> int \<Rightarrow> int \<Rightarrow> bool option" where
  "HasFlips_scan flds p r c dr dc n =
     (if \<not> ValidCoords_player (r + dr * n) (c + dc * n) then Some False
      else if cell flds (r + dr * n) (c + dc * n) = NONE then Some False
      else if cell flds (r + dr * n) (c + dc * n) = p \<and> n > 1 then Some True
      else HasFlips_scan flds p r c dr dc (n + 1))"

declare HasFlips_scan.simps [code]

fun HasFlips_dirs ::
  "Player list list \<Rightarrow> Player \<Rightarrow> int \<Rightarrow> int \<Rightarrow> (int \<times> int) list \<Rightarrow> bool option" where
  "HasFlips_dirs flds p r c [] = Some False"
| "HasFlips_dirs flds p r c ((dr, dc) # ds) =
     (if dr \<noteq> 0 \<or> dc \<noteq> 0 then
        (case HasFlips_scan flds p r c dr dc 1 of
           None \<Rightarrow> None
         | Some found \<Rightarrow> if found then Some True else HasFlips_dirs flds p r c ds)
      else HasFlips_dirs flds p r c ds)"

definition HasFlips :: "Player list list \<Rightarrow> Player \<Rightarrow> int \<Rightarrow> int \<Rightarrow> bool option" where
  "HasFlips flds p r c = HasFlips_dirs flds p r c directions"

partial_function (option) DoFlips_scan ::
  "Player list list \<Rightarrow> Player \<Rightarrow> int \<Rightarrow> int \<Rightarrow> int \<Rightarrow> int \<Rightarrow> int \<Rightarrow> int \<Rightarrow> int option" where
  "DoFlips_scan flds p r c dr dc n last_n =
     (if \<not> ValidCoords_player (r + dr * n) (c + dc * n) then Some last_n
      else if cell flds (r + dr * n) (c + dc * n) = NONE then Some last_n
      else DoFlips_scan flds p r c dr dc (n + 1)
             (if cell flds (r + dr * n) (c + dc * n) = p then n else last_n))"

declare DoFlips_scan.simps [code]

text \<open>\<^verbatim>\<open>for (int n = 1; n < last_n; ++n) { Player &o = (*fields)[r + n*dr][c + n*dc]; o = Other(o); }\<close>\<close>

fun DoFlips_flip ::
  "Player list list \<Rightarrow> int \<Rightarrow> int \<Rightarrow> int \<Rightarrow> int \<Rightarrow> int list \<Rightarrow> Player list list" where
  "DoFlips_flip flds r c dr dc [] = flds"
| "DoFlips_flip flds r c dr dc (n # ns) =
     DoFlips_flip
       (store flds (r + n * dr) (c + n * dc) (Other (cell flds (r + n * dr) (c + n * dc))))
       r c dr dc ns"

fun DoFlips_dirs ::
  "Player list list \<Rightarrow> Player \<Rightarrow> int \<Rightarrow> int \<Rightarrow> (int \<times> int) list \<Rightarrow> Player list list option" where
  "DoFlips_dirs flds p r c [] = Some flds"
| "DoFlips_dirs flds p r c ((dr, dc) # ds) =
     (if dr \<noteq> 0 \<or> dc \<noteq> 0 then
        (case DoFlips_scan flds p r c dr dc 1 0 of
           None \<Rightarrow> None
         | Some last_n \<Rightarrow>
             DoFlips_dirs (DoFlips_flip flds r c dr dc [1 .. last_n - 1]) p r c ds)
      else DoFlips_dirs flds p r c ds)"

definition DoFlips :: "Player list list \<Rightarrow> Player \<Rightarrow> int \<Rightarrow> int \<Rightarrow> Player list list option" where
  "DoFlips flds p r c = DoFlips_dirs flds p r c directions"

text \<open>
  \<^verbatim>\<open>HasOccupiedNeighbor\<close> of the player starts with \<^verbatim>\<open>CHECK_EQ(fields[r][c], Player::NONE)\<close>.
  \<open>None\<close> stands for every way of not returning a value: a failed \<^verbatim>\<open>CHECK\<close> (which aborts),
  an index outside the array, a loop that does not end.
\<close>

definition HasOccupiedNeighbor_player :: "Player list list \<Rightarrow> int \<Rightarrow> int \<Rightarrow> bool option" where
  "HasOccupiedNeighbor_player flds r c =
     (if \<not> (0 \<le> r \<and> r < H \<and> 0 \<le> c \<and> c < W) then None
      else if cell flds r c \<noteq> NONE then None
      else
        (let min_r = (if r > 0 then r - 1 else 0);
             max_r = (if r < H - 1 then r + 1 else H - 1);
             min_c = (if c > 0 then c - 1 else 0);
             max_c = (if c < W - 1 then c + 1 else W - 1)
         in Some (list_ex (\<lambda>r2. list_ex (\<lambda>c2. cell flds r2 c2 \<noteq> NONE) [min_c .. max_c])
                    [min_r .. max_r])))"

definition DoMove :: "Board \<Rightarrow> Move \<Rightarrow> Board option" where
  "DoMove board move =
     (let p = next_player board
      in if \<not> (0 \<le> row move \<and> row move < H \<and> 0 \<le> col move \<and> col move < W) then None
         else if cell (b_fields board) (row move) (col move) \<noteq> NONE then None
         else
           (case DoFlips (store (b_fields board) (row move) (col move) p) p (row move) (col move) of
              None \<Rightarrow> None
            | Some flds \<Rightarrow> Some \<lparr>b_fields = flds, next_player = Other p\<rparr>))"

definition UndoMove :: "Board \<Rightarrow> Move \<Rightarrow> Board option" where
  "UndoMove board move =
     (let p = Other (next_player board)
      in if \<not> (0 \<le> row move \<and> row move < H \<and> 0 \<le> col move \<and> col move < W) then None
         else if cell (b_fields board) (row move) (col move) \<noteq> p then None
         else
           (case DoFlips (store (b_fields board) (row move) (col move) NONE) p (row move) (col move) of
              None \<Rightarrow> None
            | Some flds \<Rightarrow> Some \<lparr>b_fields = flds, next_player = p\<rparr>))"

text \<open>
  \<^verbatim>\<open>ListMoves\<close> fills the caller's array \<^verbatim>\<open>Move moves[MAX_MOVES]\<close> and returns how many of its
  entries count. The first loop appends every candidate; a write at index 60 or beyond is
  outside the array, \<open>None\<close> here. The second loop compacts the flipping candidates to
  the front of the same array.
\<close>

definition ListMoves_collect ::
  "Player list list \<Rightarrow> int \<times> int \<Rightarrow> (Move list \<times> nat) option \<Rightarrow> (Move list \<times> nat) option" where
  "ListMoves_collect flds rc acc =
     (case acc of
        None \<Rightarrow> None
      | Some (moves, total_moves) \<Rightarrow>
          if cell flds (fst rc) (snd rc) = NONE then
            (case HasOccupiedNeighbor_player flds (fst rc) (snd rc) of
               None \<Rightarrow> None
             | Some occupied \<Rightarrow>
                 if occupied then
                   (if total_moves < length moves
                    then Some (moves[total_moves := \<lparr>row = fst rc, col = snd rc\<rparr>], total_moves + 1)
                    else None)
                 else Some (moves, total_moves))
          else Some (moves, total_moves))"

definition ListMoves_compact ::
  "Player list list \<Rightarrow> Player \<Rightarrow> nat \<Rightarrow> (Move list \<times> nat) option \<Rightarrow> (Move list \<times> nat) option" where
  "ListMoves_compact flds p i acc =
     (case acc of
        None \<Rightarrow> None
      | Some (moves, flipping_moves) \<Rightarrow>
          (case HasFlips flds p (row (moves ! i)) (col (moves ! i)) of
             None \<Rightarrow> None
           | Some flips \<Rightarrow>
               if flips then Some (moves[flipping_moves := moves ! i], flipping_moves + 1)
               else Some (moves, flipping_moves)))"

definition ListMoves :: "Board \<Rightarrow> Move list \<Rightarrow> (Move list \<times> nat) option" where
  "ListMoves board moves =
     (case fold (ListMoves_collect (b_fields board)) all_cells (Some (moves, 0)) of
        None \<Rightarrow> None
      | Some (moves1, total_moves) \<Rightarrow>
          (case fold (ListMoves_compact (b_fields board) (next_player board)) [0 ..< total_moves]
                  (Some (moves1, 0)) of
             None \<Rightarrow> None
           | Some (moves2, flipping_moves) \<Rightarrow>
               Some (moves2, if flipping_moves > 0 then flipping_moves else total_moves)))"

text \<open>\<^verbatim>\<open>Move moves[MAX_MOVES];\<close> as a local: sixty default-constructed moves.\<close>

definition fresh_moves :: "Move list" where
  "fresh_moves = replicate MAX_MOVES_player \<lparr>row = 0, col = 0\<rparr>"

definition Evaluate_step :: "Board \<Rightarrow> int \<times> int \<Rightarrow> int option \<Rightarrow> int option" where
  "Evaluate_step board rc acc =
     (case acc of
        None \<Rightarrow> None
      | Some score_acc \<Rightarrow>
          if cell (b_fields board) (fst rc) (snd rc) = NONE then
            (case HasOccupiedNeighbor_player (b_fields board) (fst rc) (snd rc) of
               None \<Rightarrow> None
             | Some occupied \<Rightarrow>
                 if occupied then
                   (case HasFlips (b_fields board) (next_player board) (fst rc) (snd rc) of
                      None \<Rightarrow> None
                    | Some fp \<Rightarrow>
                        (case HasFlips (b_fields board) (Other (next_player board)) (fst rc) (snd rc) of
                           None \<Rightarrow> None
                         | Some fq \<Rightarrow>
                             Some ((if fp then score_acc + 2 else score_acc) - (if fq then 2 else 0))))
                 else Some score_acc)
          else Some (score_acc + (if cell (b_fields board) (fst rc) (snd rc) = next_player board then 1 else - 1)))"

definition Evaluate :: "Board \<Rightarrow> int option" where
  "Evaluate board = fold (Evaluate_step board) all_cells (Some 0)"

text \<open>
  \<^verbatim>\<open>Search\<close> changes the board it is given in place and puts it back; the model returns
  the board next to the value. The loop over the moves is \<open>Search_moves\<close>; the two
  \<^verbatim>\<open>CHECK\<close>s on \<^verbatim>\<open>best_value\<close> are the last test of \<open>Search\<close>.
\<close>

function Search :: "Board \<Rightarrow> int \<Rightarrow> (Board \<times> int) option"
  and Search_moves :: "Board \<Rightarrow> int \<Rightarrow> Move list \<Rightarrow> int \<Rightarrow> (Board \<times> int) option" where
  "Search board depth =
     (if depth \<le> 0 then map_option (Pair board) (Evaluate board)
      else
        (case ListMoves board fresh_moves of
           None \<Rightarrow> None
         | Some (moves, num_moves) \<Rightarrow>
             if num_moves \<le> 0 then map_option (Pair board) (Evaluate board)
             else
               (case Search_moves board depth (take num_moves moves) (MIN_VALUE - 1) of
                  None \<Rightarrow> None
                | Some (board', best_value) \<Rightarrow>
                    if best_value \<ge> MIN_VALUE \<and> best_value \<le> MAX_VALUE
                    then Some (board', best_value) else None)))"
| "Search_moves board depth [] best_value = Some (board, best_value)"
| "Search_moves board depth (move # moves) best_value =
     (case DoMove board move of
        None \<Rightarrow> None
      | Some board1 \<Rightarrow>
          (case Search board1 (depth - 1) of
             None \<Rightarrow> None
           | Some (board2, v) \<Rightarrow>
               (case UndoMove board2 move of
                  None \<Rightarrow> None
                | Some board3 \<Rightarrow>
                    Search_moves board3 depth moves
                      (if - v > best_value then - v else best_value))))"
  by pat_completeness auto
termination
  by (relation "measures
         [\<lambda>x. case x of
            Inl (board, depth) \<Rightarrow> 2 * nat depth
          | Inr (board, depth, moves, best_value) \<Rightarrow> 2 * nat (depth - 1) + 1,
          \<lambda>x. case x of
            Inl (board, depth) \<Rightarrow> 0
          | Inr (board, depth, moves, best_value) \<Rightarrow> length moves]")
     auto

definition FormatMove_player :: "Move \<Rightarrow> string" where
  "FormatMove_player move =
     (let s = [];
          s = s @ [char_of (int_of_char CHR ''A'' + row move)];
          s = s @ [char_of (int_of_char CHR ''1'' + col move)]
      in s)"

definition ParseMove_player :: "string \<Rightarrow> Move option" where
  "ParseMove_player s =
     (if length s \<noteq> 2 then None
      else
        (let row = int_of_char (s ! 0) - int_of_char CHR ''A'';
             col = int_of_char (s ! 1) - int_of_char CHR ''1''
         in if \<not> ValidCoords_player row col then None else Some \<lparr>row = row, col = col\<rparr>))"

section \<open>Vocabulary for the flipping rule\<close>

text \<open>
  The definitions of this section are not taken from the sources. They state what the
  scans compute, for both programs at once: \<open>occ\<close> tells an occupied cell, \<open>mine\<close> a cell
  of the player who moves, \<open>tog\<close> is what a flip does to a cell.

  \<open>scan_fuel\<close> is the scan loop with a bound on its iterations, \<open>last_own\<close> its result
  from distance 1: the distance of the last own disc in the run of occupied cells that
  starts next to \<open>(r, c)\<close> in direction \<open>(dr, dc)\<close>, or 0. \<open>bracket \<dots> m\<close> says that
  the cells at the distances \<open>1..m\<close> are on the board and occupied and that the one at
  distance \<open>m\<close> is an own disc. \<open>flipped \<dots> r' c'\<close> says that \<open>(r', c')\<close> lies, in
  one of the eight directions, strictly between \<open>(r, c)\<close> and a cell at a distance with
  \<open>bracket\<close>.
\<close>

fun scan_fuel :: "nat \<Rightarrow> (int \<Rightarrow> bool) \<Rightarrow> (int \<Rightarrow> bool) \<Rightarrow> int \<Rightarrow> int \<Rightarrow> int" where
  "scan_fuel 0 ok own n last_n = last_n"
| "scan_fuel (Suc k) ok own n last_n =
     (if \<not> ok n then last_n else scan_fuel k ok own (n + 1) (if own n then n else last_n))"

definition ok_at :: "('a \<Rightarrow> bool) \<Rightarrow> 'a list list \<Rightarrow> int \<Rightarrow> int \<Rightarrow> int \<Rightarrow> int \<Rightarrow> int \<Rightarrow> bool" where
  "ok_at occ fs r c dr dc n =
     (ValidCoords (r + n * dr) (c + n * dc) \<and> occ (cell fs (r + n * dr) (c + n * dc)))"

definition own_at :: "('a \<Rightarrow> bool) \<Rightarrow> 'a list list \<Rightarrow> int \<Rightarrow> int \<Rightarrow> int \<Rightarrow> int \<Rightarrow> int \<Rightarrow> bool" where
  "own_at mine fs r c dr dc n = mine (cell fs (r + n * dr) (c + n * dc))"

definition last_own ::
  "('a \<Rightarrow> bool) \<Rightarrow> ('a \<Rightarrow> bool) \<Rightarrow> 'a list list \<Rightarrow> int \<Rightarrow> int \<Rightarrow> int \<Rightarrow> int \<Rightarrow> int" where
  "last_own occ mine fs r c dr dc =
     scan_fuel 8 (ok_at occ fs r c dr dc) (own_at mine fs r c dr dc) 1 0"

definition bracket ::
  "('a \<Rightarrow> bool) \<Rightarrow> ('a \<Rightarrow> bool) \<Rightarrow> 'a list list \<Rightarrow> int \<Rightarrow> int \<Rightarrow> int \<Rightarrow> int \<Rightarrow> int \<Rightarrow> bool" where
  "bracket occ mine fs r c dr dc m =
     (list_all (ok_at occ fs r c dr dc) [1 .. m] \<and> own_at mine fs r c dr dc m)"

definition flipped ::
  "('a \<Rightarrow> bool) \<Rightarrow> ('a \<Rightarrow> bool) \<Rightarrow> 'a list list \<Rightarrow> int \<Rightarrow> int \<Rightarrow> int \<Rightarrow> int \<Rightarrow> bool" where
  "flipped occ mine fs r c r' c' =
     list_ex (\<lambda>(dr, dc). (dr \<noteq> 0 \<or> dc \<noteq> 0) \<and>
        list_ex (\<lambda>m. bracket occ mine fs r c dr dc m \<and>
           list_ex (\<lambda>n. r' = r + n * dr \<and> c' = c + n * dc) [1 .. m - 1]) [1 .. 7])
       directions"

fun flip_run ::
  "('a \<Rightarrow> 'a) \<Rightarrow> 'a list list \<Rightarrow> int \<Rightarrow> int \<Rightarrow> int \<Rightarrow> int \<Rightarrow> int list \<Rightarrow> 'a list list" where
  "flip_run tog fs r c dr dc [] = fs"
| "flip_run tog fs r c dr dc (n # ns) =
     flip_run tog (store fs (r + n * dr) (c + n * dc) (tog (cell fs (r + n * dr) (c + n * dc))))
       r c dr dc ns"

fun flip_dirs ::
  "('a \<Rightarrow> bool) \<Rightarrow> ('a \<Rightarrow> bool) \<Rightarrow> ('a \<Rightarrow> 'a) \<Rightarrow> 'a list list \<Rightarrow> int \<Rightarrow> int \<Rightarrow> (int \<times> int) list \<Rightarrow> 'a list list" where
  "flip_dirs occ mine tog fs r c [] = fs"
| "flip_dirs occ mine tog fs r c ((dr, dc) # ds) =
     (if dr \<noteq> 0 \<or> dc \<noteq> 0
      then flip_dirs occ mine tog
             (flip_run tog fs r c dr dc [1 .. last_own occ mine fs r c dr dc - 1]) r c ds
      else flip_dirs occ mine tog fs r c ds)"

definition on_ray ::
  "('a \<Rightarrow> bool) \<Rightarrow> ('a \<Rightarrow> bool) \<Rightarrow> 'a list list \<Rightarrow> int \<Rightarrow> int \<Rightarrow> int \<times> int \<Rightarrow> int \<Rightarrow> int \<Rightarrow> bool" where
  "on_ray occ mine fs r c d r' c' =
     ((fst d \<noteq> 0 \<or> snd d \<noteq> 0) \<and>
      (\<exists>n. 1 \<le> n \<and> n < last_own occ mine fs r c (fst d) (snd d)
         \<and> r' = r + n * fst d \<and> c' = c + n * snd d))"

fun has_fuel :: "nat \<Rightarrow> (int \<Rightarrow> bool) \<Rightarrow> (int \<Rightarrow> bool) \<Rightarrow> int \<Rightarrow> bool" where
  "has_fuel 0 ok own n = False"
| "has_fuel (Suc k) ok own n =
     (if \<not> ok n then False else if own n \<and> n > 1 then True else has_fuel k ok own (n + 1))"

definition dir8 :: "int \<Rightarrow> int \<Rightarrow> bool" where
  "dir8 dr dc = ((dr = - 1 \<or> dr = 0 \<or> dr = 1) \<and> (dc = - 1 \<or> dc = 0 \<or> dc = 1) \<and> (dr \<noteq> 0 \<or> dc \<noteq> 0))"

definition run :: "(int \<Rightarrow> bool) \<Rightarrow> int \<Rightarrow> int \<Rightarrow> bool" where
  "run ok n m = (\<forall>k. n \<le> k \<and> k \<le> m \<longrightarrow> ok k)"

text \<open>
  The legal moves. A candidate is an empty cell of the board with an occupied cell among
  its up to eight neighbours. A candidate is \<open>flipping\<close> when its flip set, in the sense
  of \<open>flipped\<close>, is not empty: some cell lies strictly between it and an own disc that
  is reached over occupied cells only, whatever the colour of the cells in between. This
  is the rule of the code, not the bracket of opposing discs that the specification
  describes; that one is \<open>claimed_flipping\<close> below. The legal cells are the flipping
  candidates when there is one, and all candidates otherwise.
\<close>

definition neighbor_occupied :: "('a \<Rightarrow> bool) \<Rightarrow> 'a list list \<Rightarrow> int \<Rightarrow> int \<Rightarrow> bool" where
  "neighbor_occupied occ fs r c =
     list_ex (\<lambda>(r2, c2). (r2 \<noteq> r \<or> c2 \<noteq> c) \<and> \<bar>r2 - r\<bar> \<le> 1 \<and> \<bar>c2 - c\<bar> \<le> 1 \<and> occ (cell fs r2 c2))
       all_cells"

definition candidate :: "('a \<Rightarrow> bool) \<Rightarrow> 'a list list \<Rightarrow> int \<Rightarrow> int \<Rightarrow> bool" where
  "candidate occ fs r c = (ValidCoords r c \<and> \<not> occ (cell fs r c) \<and> neighbor_occupied occ fs r c)"

definition flipping :: "('a \<Rightarrow> bool) \<Rightarrow> ('a \<Rightarrow> bool) \<Rightarrow> 'a list list \<Rightarrow> int \<Rightarrow> int \<Rightarrow> bool" where
  "flipping occ mine fs r c = list_ex (\<lambda>(r', c'). flipped occ mine fs r c r' c') all_cells"

definition legal_cells :: "('a \<Rightarrow> bool) \<Rightarrow> ('a \<Rightarrow> bool) \<Rightarrow> 'a list list \<Rightarrow> (int \<times> int) list" where
  "legal_cells occ mine fs =
     (let cands = filter (\<lambda>(r, c). candidate occ fs r c) all_cells;
          fl = filter (\<lambda>(r, c). flipping occ mine fs r c) cands
      in if fl = [] then cands else fl)"

definition mk_move :: "int \<times> int \<Rightarrow> Move" where
  "mk_move rc = \<lparr>row = fst rc, col = snd rc\<rparr>"

text \<open>
  The rule as claim C2 words it, for comparison with \<open>flipped\<close>: the cells at the
  distances \<open>1..m-1\<close> are on the board and hold discs of the opponent, the cell at
  distance \<open>m\<close> is on the board and holds an own disc, and \<open>(r', c')\<close> is one of the
  former.
\<close>

definition claimed_flipped ::
  "('a \<Rightarrow> bool) \<Rightarrow> ('a \<Rightarrow> bool) \<Rightarrow> 'a list list \<Rightarrow> int \<Rightarrow> int \<Rightarrow> int \<Rightarrow> int \<Rightarrow> bool" where
  "claimed_flipped occ mine fs r c r' c' =
     list_ex (\<lambda>(dr, dc). (dr \<noteq> 0 \<or> dc \<noteq> 0) \<and>
        list_ex (\<lambda>m.
           list_all (\<lambda>k. ok_at occ fs r c dr dc k \<and> \<not> own_at mine fs r c dr dc k) [1 .. m - 1]
           \<and> ok_at occ fs r c dr dc m \<and> own_at mine fs r c dr dc m
           \<and> list_ex (\<lambda>n. r' = r + n * dr \<and> c' = c + n * dc) [1 .. m - 1]) [1 .. 7])
       directions"

text \<open>A cell has a flip in the sense of the specification when some cell is
  \<open>claimed_flipped\<close> from it.\<close>

definition claimed_flipping ::
  "('a \<Rightarrow> bool) \<Rightarrow> ('a \<Rightarrow> bool) \<Rightarrow> 'a list list \<Rightarrow> int \<Rightarrow> int \<Rightarrow> bool" where
  "claimed_flipping occ mine fs r c =
     list_ex (\<lambda>(r', c'). claimed_flipped occ mine fs r c r' c') all_cells"

text \<open>A position for the examples: one white disc in the corner A1, white to move.\<close>

definition corner_board :: Board where
  "corner_board = \<lparr>b_fields = store (replicate 8 (replicate 8 NONE)) 0 0 WHITE, next_player = WHITE\<rparr>"

text \<open>What one cell adds to the score in \<^verbatim>\<open>Evaluate\<close>.\<close>

definition cell_value :: "Board \<Rightarrow> int \<times> int \<Rightarrow> int" where
  "cell_value board rc =
     (if cell (b_fields board) (fst rc) (snd rc) = NONE then
        (if candidate (\<lambda>x. x \<noteq> NONE) (b_fields board) (fst rc) (snd rc) then
           (if flipping (\<lambda>x. x \<noteq> NONE) (\<lambda>x. x = next_player board) (b_fields board) (fst rc) (snd rc)
            then 2 else 0)
           - (if flipping (\<lambda>x. x \<noteq> NONE) (\<lambda>x. x = Other (next_player board)) (b_fields board)
                  (fst rc) (snd rc)
              then 2 else 0)
         else 0)
      else if cell (b_fields board) (fst rc) (snd rc) = next_player board then 1 else - 1)"

text \<open>The evaluation as claim C8 words it, with the flip of the specification.\<close>

definition claimed_Evaluate :: "Board \<Rightarrow> int" where
  "claimed_Evaluate board =
      int (length (filter (\<lambda>(r, c). cell (b_fields board) r c = next_player board) all_cells))
    - int (length (filter (\<lambda>(r, c). cell (b_fields board) r c = Other (next_player board)) all_cells))
    + 2 * int (length (filter (\<lambda>(r, c). candidate (\<lambda>x. x \<noteq> NONE) (b_fields board) r c
          \<and> claimed_flipping (\<lambda>x. x \<noteq> NONE) (\<lambda>x. x = next_player board) (b_fields board) r c)
        all_cells))
    - 2 * int (length (filter (\<lambda>(r, c). candidate (\<lambda>x. x \<noteq> NONE) (b_fields board) r c
          \<and> claimed_flipping (\<lambda>x. x \<noteq> NONE) (\<lambda>x. x = Other (next_player board)) (b_fields board) r c)
        all_cells))"

text \<open>The position after the first mover has played C3 on the initial board.\<close>

definition after_C3 :: Board where
  "after_C3 = \<lparr>b_fields = store (store (b_fields InitialBoard) 2 2 WHITE) 3 3 BLACK, next_player = BLACK\<rparr>"

section \<open>Vocabulary for matches\<close>

text \<open>The states reached by legal moves: each move is a member of \<^verbatim>\<open>ListValidMoves\<close> of the
  state where it is played and is applied with \<^verbatim>\<open>ExecuteMove\<close>.\<close>

fun legal_play :: "State \<Rightarrow> Move list \<Rightarrow> State option" where
  "legal_play state [] = Some state"
| "legal_play state (move # moves) =
     (case ListValidMoves state of
        None \<Rightarrow> None
      | Some valid_moves \<Rightarrow>
          if move \<in> set valid_moves
          then (case ExecuteMove state move of
                  None \<Rightarrow> None
                | Some state' \<Rightarrow> legal_play state' moves)
          else None)"

text \<open>A board of 8 by 8 cells that hold 0, 1 or 2.\<close>

definition tidy :: "State \<Rightarrow> bool" where
  "tidy state = (grid (s_fields state)
     \<and> list_all (\<lambda>(r, c). cell (s_fields state) r c = 0 \<or> cell (s_fields state) r c = 1
                    \<or> cell (s_fields state) r c = 2) all_cells)"

definition occupied_cells :: "State \<Rightarrow> (int \<times> int) list" where
  "occupied_cells state = filter (\<lambda>(r, c). cell (s_fields state) r c \<noteq> 0) all_cells"

text \<open>The number of cells that hold a given value.\<close>

definition discs :: "State \<Rightarrow> 8 word \<Rightarrow> nat" where
  "discs state v = length (filter (\<lambda>(r, c). cell (s_fields state) r c = v) all_cells)"

text \<open>
  Why the loop of \<^verbatim>\<open>RunGame\<close> was left early, read off the diagnostic printed last: in the
  state the loop was left in, with the moves played so far. The number in a diagnostic is
  the \<^verbatim>\<open>next_player\<close> of the iteration that printed it; \<^verbatim>\<open>Could not send\<close> is printed after
  the move was executed, when the side to move has changed.
\<close>

definition aborted_by :: "Env \<Rightarrow> State \<Rightarrow> Move list \<Rightarrow> diag \<Rightarrow> bool" where
  "aborted_by env state history cause =
     (case cause of
        CouldNotSendStart k \<Rightarrow> k = GetNextPlayer state \<and> history = [] \<and> \<not> start_written env
      | CouldNotParse k line \<Rightarrow>
          k = GetNextPlayer state \<and> line = fst (ReadLine (read_at env (moves_played state)))
          \<and> ParseMove line = None
      | InvalidMove k line reason \<Rightarrow>
          k = GetNextPlayer state \<and> line = fst (ReadLine (read_at env (moves_played state)))
          \<and> (case ParseMove line of
                None \<Rightarrow> False
              | Some move \<Rightarrow> ValidateMove state move = Some (False, reason))
      | CouldNotSend s k \<Rightarrow>
          GetNextPlayer state = 1 - k \<and> history \<noteq> [] \<and> s = FormatMove (last history)
          \<and> \<not> move_written env (moves_played state - 1)
      | _ \<Rightarrow> False)"


text \<open>Three legal opening moves: C3, B2, A1.\<close>

definition opening3 :: "Move list" where
  "opening3 = [\<lparr>row = 2, col = 2\<rparr>, \<lparr>row = 1, col = 1\<rparr>, \<lparr>row = 0, col = 0\<rparr>]"

text \<open>A match of 60 legal moves, the state it ends in, and two players that play it.\<close>

definition game60 :: "Move list" where
  "game60 = map (\<lambda>(r, c). \<lparr>row = r, col = c\<rparr>)
     [(2, 2), (1, 1), (0, 0), (2, 3), (2, 4), (1, 3), (0, 2), (0, 3), (0, 4), (1, 5), (0, 1),
       (0, 5), (0, 6), (0, 7), (1, 2), (2, 0), (1, 0), (1, 4), (1, 6), (1, 7), (2, 1), (2, 5),
       (2, 6), (2, 7), (3, 0), (3, 1), (3, 2), (3, 5), (3, 6), (3, 7), (4, 0), (4, 1), (4, 2),
       (4, 5), (4, 6), (4, 7), (5, 0), (5, 1), (5, 2), (5, 3), (5, 4), (5, 5), (5, 6), (5, 7),
       (6, 0), (6, 1), (6, 2), (6, 3), (6, 4), (6, 5), (6, 6), (6, 7), (7, 0), (7, 1), (7, 2),
       (7, 3), (7, 4), (7, 5), (7, 6), (7, 7)]"

definition final60 :: State where
  "final60 = \<lparr>s_fields =
              [
               [1, 2, 2, 1, 2, 2, 2, 2],
               [2, 2, 2, 1, 2, 2, 1, 2],
               [1, 1, 2, 1, 1, 1, 1, 1],
               [1, 2, 2, 1, 2, 2, 1, 2],
               [2, 2, 1, 1, 2, 1, 2, 1],
               [1, 2, 2, 2, 1, 2, 1, 2],
               [2, 2, 1, 1, 1, 2, 2, 1],
               [1, 1, 2, 2, 2, 2, 2, 2]],
     moves_played = 60\<rparr>"

definition env60 :: Env where
  "env60 = \<lparr>start_written = True,
     read_at = (\<lambda>k. ReadBytes (FormatMove (game60 ! nat k) @ [CHR 0x0A])),
     move_written = (\<lambda>k. True)\<rparr>"




section \<open>Move codes\<close>

lemma ValidCoords_player_eq: "ValidCoords_player r c = ValidCoords r c"
  by (auto simp: ValidCoords_player_def ValidCoords_def W_def SIZE_def)

lemma ValidCoords_cases:
  "ValidCoords r c \<longleftrightarrow> r \<in> {0, 1, 2, 3, 4, 5, 6, 7} \<and> c \<in> {0, 1, 2, 3, 4, 5, 6, 7}"
  by (auto simp: ValidCoords_def SIZE_def)

lemma int_of_char_A: "int_of_char CHR ''A'' = 65"
  by (simp add: int_of_char_def)

lemma int_of_char_1: "int_of_char CHR ''1'' = 49"
  by (simp add: int_of_char_def)

lemma FormatMove_code:
  "FormatMove \<lparr>row = r, col = c\<rparr> = [char_of (65 + r), char_of (49 + c)]"
  by (simp add: FormatMove_def int_of_char_A int_of_char_1 Let_def numeral_2_eq_2)

lemma FormatMove_player_eq: "FormatMove_player m = FormatMove m"
  by (simp add: FormatMove_def FormatMove_player_def Let_def numeral_2_eq_2)

lemma ParseMove_player_eq: "ParseMove_player s = ParseMove s"
  by (simp add: ParseMove_def ParseMove_player_def ValidCoords_player_eq)

lemma char_of_letters:
  assumes "0 \<le> k" "k < 8"
  shows "char_of (65 + k) = ''ABCDEFGH'' ! nat k" "char_of (49 + k) = ''12345678'' ! nat k"
proof -
  from assms have "k = 0 \<or> k = 1 \<or> k = 2 \<or> k = 3 \<or> k = 4 \<or> k = 5 \<or> k = 6 \<or> k = (7 :: int)"
    by arith
  then show "char_of (65 + k) = ''ABCDEFGH'' ! nat k" "char_of (49 + k) = ''12345678'' ! nat k"
    by (elim disjE; simp add: char_of_def)+
qed

lemma FormatMove_letters:
  assumes "ValidCoords r c"
  shows "FormatMove \<lparr>row = r, col = c\<rparr> = [''ABCDEFGH'' ! nat r, ''12345678'' ! nat c]"
  using assms by (simp add: FormatMove_code ValidCoords_def SIZE_def char_of_letters)

lemma int_of_char_char_of:
  assumes "0 \<le> k" "k < 128"
  shows "int_of_char (char_of k) = k"
proof -
  have "of_char (char_of k) = k mod 256" by (simp add: of_char_of)
  with assms show ?thesis by (simp add: int_of_char_def)
qed

lemma ParseMove_FormatMove:
  assumes "ValidCoords r c"
  shows "ParseMove (FormatMove \<lparr>row = r, col = c\<rparr>) = Some \<lparr>row = r, col = c\<rparr>"
proof -
  from assms have b: "0 \<le> r" "r < 8" "0 \<le> c" "c < 8" by (simp_all add: ValidCoords_def SIZE_def)
  then have "int_of_char (char_of (65 + r)) = 65 + r" "int_of_char (char_of (49 + c)) = 49 + c"
    by (simp_all add: int_of_char_char_of)
  with assms show ?thesis
    by (simp add: ParseMove_def FormatMove_code int_of_char_A int_of_char_1)
qed

lemma char_of_int_of_char:
  assumes "0 \<le> int_of_char ch"
  shows "char_of (int_of_char ch) = ch"
proof -
  have "of_char ch mod 256 < (256 :: int)" by (rule pos_mod_bound) simp
  then have "of_char ch < (256 :: int)" by (simp only: of_char_mod_256)
  with assms have "int_of_char ch = of_char ch" by (simp add: int_of_char_def split: if_splits)
  then show ?thesis by simp
qed

lemma ParseMove_Some:
  assumes "ParseMove s = Some m"
  shows "ValidCoords (row m) (col m) \<and> s = FormatMove m"
proof -
  from assms have len: "length s = 2" by (simp add: ParseMove_def split: if_splits)
  then obtain a b where s: "s = [a, b]"
    by (cases s; cases "tl s") (auto simp: numeral_2_eq_2)
  from assms s have v: "ValidCoords (int_of_char a - 65) (int_of_char b - 49)"
    and m: "m = \<lparr>row = int_of_char a - 65, col = int_of_char b - 49\<rparr>"
    by (auto simp: ParseMove_def Let_def int_of_char_A int_of_char_1 split: if_splits)
  from v have "0 \<le> int_of_char a" "0 \<le> int_of_char b" by (simp_all add: ValidCoords_def)
  then have "char_of (int_of_char a) = a" "char_of (int_of_char b) = b"
    by (simp_all add: char_of_int_of_char)
  with s m v show ?thesis by (simp add: FormatMove_code)
qed

text \<open>
  Claim C7. For every \<open>(r, c)\<close> on the board, \<^verbatim>\<open>FormatMove\<close> writes the letter \<open>'A' + r\<close>
  followed by the digit \<open>'1' + c\<close>, and \<^verbatim>\<open>ParseMove\<close> of that string succeeds and returns
  \<open>(r, c)\<close>; \<^verbatim>\<open>ParseMove\<close> rejects a string exactly when it is not the encoding of a pair
  of coordinates on the board. Both hold for the arbiter's and for the player's copy of
  the two functions.
\<close>

theorem move_code_round_trip:
  "(ValidCoords r c \<longrightarrow>
      FormatMove \<lparr>row = r, col = c\<rparr> = [''ABCDEFGH'' ! nat r, ''12345678'' ! nat c]
      \<and> ParseMove (FormatMove \<lparr>row = r, col = c\<rparr>) = Some \<lparr>row = r, col = c\<rparr>
      \<and> FormatMove_player \<lparr>row = r, col = c\<rparr> = [''ABCDEFGH'' ! nat r, ''12345678'' ! nat c]
      \<and> ParseMove_player (FormatMove_player \<lparr>row = r, col = c\<rparr>) = Some \<lparr>row = r, col = c\<rparr>)
   \<and> (ParseMove s = None) = (\<not> (\<exists>r c. ValidCoords r c \<and> s = FormatMove \<lparr>row = r, col = c\<rparr>))
   \<and> (ParseMove_player s = None) =
       (\<not> (\<exists>r c. ValidCoords_player r c \<and> s = FormatMove_player \<lparr>row = r, col = c\<rparr>))"
proof (intro conjI impI)
  assume v: "ValidCoords r c"
  show "FormatMove \<lparr>row = r, col = c\<rparr> = [''ABCDEFGH'' ! nat r, ''12345678'' ! nat c]"
    using v by (rule FormatMove_letters)
  show "ParseMove (FormatMove \<lparr>row = r, col = c\<rparr>) = Some \<lparr>row = r, col = c\<rparr>"
    using v by (rule ParseMove_FormatMove)
  show "FormatMove_player \<lparr>row = r, col = c\<rparr> = [''ABCDEFGH'' ! nat r, ''12345678'' ! nat c]"
    using v by (simp add: FormatMove_player_eq FormatMove_letters)
  show "ParseMove_player (FormatMove_player \<lparr>row = r, col = c\<rparr>) = Some \<lparr>row = r, col = c\<rparr>"
    using v by (simp add: FormatMove_player_eq ParseMove_player_eq ParseMove_FormatMove)
next
  show a: "(ParseMove s = None) = (\<not> (\<exists>r c. ValidCoords r c \<and> s = FormatMove \<lparr>row = r, col = c\<rparr>))"
  proof
    assume n: "ParseMove s = None"
    show "\<not> (\<exists>r c. ValidCoords r c \<and> s = FormatMove \<lparr>row = r, col = c\<rparr>)"
    proof
      assume "\<exists>r c. ValidCoords r c \<and> s = FormatMove \<lparr>row = r, col = c\<rparr>"
      then obtain r c where "ValidCoords r c" "s = FormatMove \<lparr>row = r, col = c\<rparr>" by blast
      then have "ParseMove s = Some \<lparr>row = r, col = c\<rparr>" by (simp add: ParseMove_FormatMove)
      with n show False by simp
    qed
  next
    assume n: "\<not> (\<exists>r c. ValidCoords r c \<and> s = FormatMove \<lparr>row = r, col = c\<rparr>)"
    show "ParseMove s = None"
    proof (cases "ParseMove s")
      case None
      then show ?thesis .
    next
      case (Some m)
      obtain r c where m: "m = \<lparr>row = r, col = c\<rparr>" by (cases m)
      with Some have "ValidCoords r c \<and> s = FormatMove \<lparr>row = r, col = c\<rparr>"
        using ParseMove_Some [of s m] by simp
      with n show ?thesis by blast
    qed
  qed
  show "(ParseMove_player s = None) =
       (\<not> (\<exists>r c. ValidCoords_player r c \<and> s = FormatMove_player \<lparr>row = r, col = c\<rparr>))"
    using a by (simp add: FormatMove_player_eq ParseMove_player_eq ValidCoords_player_eq)
qed

theorem move_code_round_trip_witness:
  "ValidCoords 2 3
   \<and> FormatMove \<lparr>row = 2, col = 3\<rparr> = ''C4''
   \<and> ParseMove ''C4'' = Some \<lparr>row = 2, col = 3\<rparr>
   \<and> FormatMove_player \<lparr>row = 2, col = 3\<rparr> = ''C4''
   \<and> ParseMove_player ''C4'' = Some \<lparr>row = 2, col = 3\<rparr>
   \<and> ParseMove ''C9'' = None
   \<and> ParseMove_player ''I4'' = None"
proof -
  have v: "ValidCoords 2 3" by (simp add: ValidCoords_def SIZE_def)
  have vp: "ValidCoords_player 2 3" by (simp add: ValidCoords_player_def W_def)
  note rt = move_code_round_trip [of 2 3]
  have f: "FormatMove \<lparr>row = 2, col = 3\<rparr> = ''C4''"
    using rt [of "[]"] v by simp
  have fp: "FormatMove_player \<lparr>row = 2, col = 3\<rparr> = ''C4''"
    using rt [of "[]"] v by simp
  have p: "ParseMove ''C4'' = Some \<lparr>row = 2, col = 3\<rparr>"
    using rt [of "[]"] v f by simp
  have pp: "ParseMove_player ''C4'' = Some \<lparr>row = 2, col = 3\<rparr>"
    using rt [of "[]"] v fp by simp
  have n1: "ParseMove ''C9'' = None"
    by (simp add: ParseMove_def int_of_char_def ValidCoords_def SIZE_def)
  have n2: "ParseMove_player ''I4'' = None"
    by (simp add: ParseMove_player_def int_of_char_def ValidCoords_player_def W_def)
  from v f p fp pp n1 n2 show ?thesis by blast
qed


section \<open>What the scans compute\<close>

subsection \<open>Arrays\<close>

lemma ValidCoords_iff: "ValidCoords r c \<longleftrightarrow> 0 \<le> r \<and> r < 8 \<and> 0 \<le> c \<and> c < 8"
  by (simp add: ValidCoords_def SIZE_def)

lemma grid_length: "grid fs \<Longrightarrow> length fs = 8"
  by (simp add: grid_def)

lemma grid_row_length: "grid fs \<Longrightarrow> i < 8 \<Longrightarrow> length (fs ! i) = 8"
  by (simp add: grid_def list_all_length)

lemma grid_store: "grid fs \<Longrightarrow> grid (store fs r c v)"
proof (cases "nat r < length fs")
  case True
  assume "grid fs"
  with True show ?thesis
    by (auto simp: grid_def store_def list_all_length nth_list_update)
next
  case False
  assume "grid fs"
  with False show ?thesis by (simp add: store_def list_update_beyond)
qed

lemma cell_store:
  assumes "grid fs" "ValidCoords r c" "ValidCoords r' c'"
  shows "cell (store fs r c v) r' c' = (if r' = r \<and> c' = c then v else cell fs r' c')"
proof -
  from assms have b: "nat r < 8" "nat c < 8" "nat r' < 8" "nat c' < 8"
    unfolding ValidCoords_iff by linarith+
  have eqr: "nat r' = nat r \<longleftrightarrow> r' = r" and eqc: "nat c' = nat c \<longleftrightarrow> c' = c"
    using assms by (auto simp: ValidCoords_iff)
  from assms(1) b have l: "length fs = 8" "length (fs ! nat r) = 8"
    by (simp_all add: grid_length grid_row_length)
  show ?thesis
    using b l eqr eqc by (auto simp: cell_def store_def nth_list_update)
qed

lemma grid_ext:
  assumes "grid a" "grid b"
    and "\<And>r c. ValidCoords r c \<Longrightarrow> cell a r c = cell b r c"
  shows "a = b"
proof (rule nth_equalityI)
  show "length a = length b" using assms by (simp add: grid_length)
next
  fix i assume "i < length a"
  with assms(1) have i: "i < 8" by (simp add: grid_length)
  show "a ! i = b ! i"
  proof (rule nth_equalityI)
    show "length (a ! i) = length (b ! i)" using assms i by (simp add: grid_row_length)
  next
    fix j assume "j < length (a ! i)"
    with assms(1) i have j: "j < 8" by (simp add: grid_row_length)
    from i j have "ValidCoords (int i) (int j)" by (simp add: ValidCoords_iff)
    from assms(3) [OF this] show "a ! i ! j = b ! i ! j" by (simp add: cell_def)
  qed
qed

subsection \<open>The scan in one direction\<close>

lemma directions_dir8: "(dr, dc) \<in> set directions \<Longrightarrow> dr \<noteq> 0 \<or> dc \<noteq> 0 \<Longrightarrow> dir8 dr dc"
  by (auto simp: directions_def dir8_def)

lemma off_board:
  assumes "ValidCoords r c" "dir8 dr dc" "n \<ge> 8"
  shows "\<not> ValidCoords (r + n * dr) (c + n * dc)"
  using assms by (auto simp: ValidCoords_iff dir8_def)

lemma ray_inj:
  assumes "dir8 dr dc" "dir8 dr' dc'" "1 \<le> n" "1 \<le> n'"
    and "r + n * dr = r + n' * dr'" "c + n * dc = c + n' * dc'"
  shows "dr = dr' \<and> dc = dc' \<and> n = n'"
  using assms by (auto simp: dir8_def)

text \<open>Any function that unfolds like the source's scan loop returns what \<open>scan_fuel\<close>
  computes, once the fuel covers every index on which the loop can continue.\<close>

lemma scan_is_scan_fuel:
  fixes f :: "int \<Rightarrow> int \<Rightarrow> int option"
  assumes unfold: "\<And>n l. f n l = (if \<not> ok n then Some l else f (n + 1) (if own n then n else l))"
    and bound: "\<And>n. N \<le> n \<Longrightarrow> \<not> ok n"
  shows "N \<le> n + int k \<Longrightarrow> f n l = Some (scan_fuel k ok own n l)"
proof (induction k arbitrary: n l)
  case 0
  then have "\<not> ok n" using bound by simp
  then show ?case by (subst unfold) simp
next
  case (Suc k)
  show ?case
  proof (cases "ok n")
    case False
    then show ?thesis by (subst unfold) simp
  next
    case True
    have "f (n + 1) (if own n then n else l) = Some (scan_fuel k ok own (n + 1) (if own n then n else l))"
      using Suc.prems by (intro Suc.IH) simp
    with True show ?thesis by (subst unfold) simp
  qed
qed

lemma scan_fuel_cong:
  assumes "\<And>j. n \<le> j \<Longrightarrow> ok j = ok' j" "\<And>j. n \<le> j \<Longrightarrow> ok j \<Longrightarrow> own j = own' j"
  shows "scan_fuel k ok own n l = scan_fuel k ok' own' n l"
  using assms
proof (induction k arbitrary: n l)
  case 0
  then show ?case by simp
next
  case (Suc k)
  have "scan_fuel k ok own (n + 1) l' = scan_fuel k ok' own' (n + 1) l'" for l'
    using Suc.prems by (intro Suc.IH) simp_all
  moreover have "ok n = ok' n" "ok n \<Longrightarrow> own n = own' n" using Suc.prems by simp_all
  ultimately show ?case by auto
qed

text \<open>More fuel than the loop can use changes nothing.\<close>

lemma scan_fuel_range: "scan_fuel k ok own n l = l \<or> n \<le> scan_fuel k ok own n l"
proof (induction k arbitrary: n l)
  case 0
  then show ?case by simp
next
  case (Suc k)
  from Suc.IH [of "n + 1" "if own n then n else l"] show ?case by auto
qed

lemma run_step: "n \<le> m \<Longrightarrow> run ok n m \<longleftrightarrow> ok n \<and> run ok (n + 1) m"
  unfolding run_def
  by (metis add1_zle_eq order_le_less order_refl zle_add1_eq_le zless_add1_eq)

lemma scan_fuel_post:
  assumes "\<And>j. N \<le> j \<Longrightarrow> \<not> ok j" "N \<le> n + int k"
  shows "(scan_fuel k ok own n l = l \<and> (\<forall>m\<ge>n. \<not> (run ok n m \<and> own m)))
       \<or> (n \<le> scan_fuel k ok own n l \<and> run ok n (scan_fuel k ok own n l)
          \<and> own (scan_fuel k ok own n l)
          \<and> (\<forall>m\<ge>n. run ok n m \<and> own m \<longrightarrow> m \<le> scan_fuel k ok own n l))"
  using assms(2)
proof (induction k arbitrary: n l)
  case 0
  then have "\<not> ok n" using assms(1) by simp
  then have "\<forall>m\<ge>n. \<not> run ok n m" by (auto simp: run_def)
  then show ?case by simp
next
  case (Suc k)
  show ?case
  proof (cases "ok n")
    case False
    then have "\<forall>m\<ge>n. \<not> run ok n m" by (auto simp: run_def)
    with False show ?thesis by simp
  next
    case True
    let ?l = "if own n then n else l"
    let ?res = "scan_fuel k ok own (n + 1) ?l"
    have res: "scan_fuel (Suc k) ok own n l = ?res" using True by simp
    have split: "run ok n m \<and> own m \<longleftrightarrow>
        (m = n \<and> own n) \<or> (n + 1 \<le> m \<and> run ok (n + 1) m \<and> own m)" if "n \<le> m" for m
    proof (cases "m = n")
      case True
      with \<open>ok n\<close> show ?thesis by (auto simp: run_def)
    next
      case False
      with that have "n + 1 \<le> m" by simp
      with that \<open>ok n\<close> False show ?thesis by (auto simp: run_step)
    qed
    from Suc.prems have "N \<le> (n + 1) + int k" by simp
    from Suc.IH [OF this, of ?l]
    consider (none) "?res = ?l" "\<forall>m\<ge>n + 1. \<not> (run ok (n + 1) m \<and> own m)"
      | (some) "n + 1 \<le> ?res" "run ok (n + 1) ?res" "own ?res"
          "\<forall>m\<ge>n + 1. run ok (n + 1) m \<and> own m \<longrightarrow> m \<le> ?res"
      by blast
    then show ?thesis
    proof cases
      case none
      show ?thesis
      proof (cases "own n")
        case own: True
        with none have r: "?res = n" by simp
        have "run ok n n" using True by (auto simp: run_def)
        moreover have "\<forall>m\<ge>n. run ok n m \<and> own m \<longrightarrow> m \<le> n"
          using none(2) split by auto
        ultimately show ?thesis using own r res by simp
      next
        case notown: False
        with none have r: "?res = l" by simp
        have "\<forall>m\<ge>n. \<not> (run ok n m \<and> own m)"
          using none(2) split notown by auto
        then show ?thesis using r res by simp
      qed
    next
      case some
      have "n \<le> ?res" using some(1) by simp
      moreover have "run ok n ?res" using some(1,2) True by (simp add: run_step)
      moreover have "\<forall>m\<ge>n. run ok n m \<and> own m \<longrightarrow> m \<le> ?res"
        using some(1,4) split by auto
      ultimately show ?thesis using some(3) res by simp
    qed
  qed
qed


lemma list_all_upto: "list_all P [a .. b] \<longleftrightarrow> (\<forall>k. a \<le> k \<and> k \<le> b \<longrightarrow> P k)"
  by (auto simp: list_all_iff)

lemma bracket_run:
  "bracket occ mine fs r c dr dc m
     \<longleftrightarrow> run (ok_at occ fs r c dr dc) 1 m \<and> own_at mine fs r c dr dc m"
  by (simp add: bracket_def list_all_upto run_def)

lemma ok_at_off_board:
  assumes "ValidCoords r c" "dir8 dr dc" "8 \<le> n"
  shows "\<not> ok_at occ fs r c dr dc n"
  using off_board [OF assms] by (simp add: ok_at_def)

lemma last_own_cases:
  assumes "ValidCoords r c" "dir8 dr dc"
  shows "(last_own occ mine fs r c dr dc = 0 \<and> (\<forall>m\<ge>1. \<not> bracket occ mine fs r c dr dc m))
       \<or> (1 \<le> last_own occ mine fs r c dr dc \<and> last_own occ mine fs r c dr dc \<le> 7
          \<and> bracket occ mine fs r c dr dc (last_own occ mine fs r c dr dc)
          \<and> (\<forall>m\<ge>1. bracket occ mine fs r c dr dc m \<longrightarrow> m \<le> last_own occ mine fs r c dr dc))"
proof -
  let ?ok = "ok_at occ fs r c dr dc" and ?own = "own_at mine fs r c dr dc"
  let ?res = "scan_fuel 8 ?ok ?own 1 0"
  have bound: "\<And>j. 8 \<le> j \<Longrightarrow> \<not> ?ok j" using assms by (rule ok_at_off_board)
  have "(8 :: int) \<le> 1 + int 8" by simp
  from scan_fuel_post [of 8 ?ok 1 8 ?own 0, OF bound this]
  consider (none) "?res = 0" "\<forall>m\<ge>1. \<not> (run ?ok 1 m \<and> ?own m)"
    | (some) "1 \<le> ?res" "run ?ok 1 ?res" "?own ?res" "\<forall>m\<ge>1. run ?ok 1 m \<and> ?own m \<longrightarrow> m \<le> ?res"
    by blast
  then show ?thesis
  proof cases
    case none
    then show ?thesis by (simp add: last_own_def bracket_run)
  next
    case some
    from some(1,2) have "?ok ?res" by (simp add: run_def)
    with bound have "?res \<le> 7" by (cases "8 \<le> ?res") auto
    with some show ?thesis by (simp add: last_own_def bracket_run)
  qed
qed

lemma last_own_iff:
  assumes "ValidCoords r c" "dir8 dr dc" "1 \<le> n"
  shows "n < last_own occ mine fs r c dr dc \<longleftrightarrow> (\<exists>m. n < m \<and> bracket occ mine fs r c dr dc m)"
  using last_own_cases [OF assms(1,2), of occ mine fs] assms(3) by (auto intro: order_less_le_trans)

text \<open>A cell is in the flip set when it lies strictly between \<open>(r, c)\<close> and the last own
  disc of some direction.\<close>

lemma flipped_iff:
  assumes "ValidCoords r c"
  shows "flipped occ mine fs r c r' c' \<longleftrightarrow>
     (\<exists>dr dc n. (dr, dc) \<in> set directions \<and> (dr \<noteq> 0 \<or> dc \<noteq> 0) \<and> 1 \<le> n
        \<and> n < last_own occ mine fs r c dr dc \<and> r' = r + n * dr \<and> c' = c + n * dc)"
    (is "?L \<longleftrightarrow> ?R")
proof
  assume ?L
  then obtain dr dc m n where d: "(dr, dc) \<in> set directions" "dr \<noteq> 0 \<or> dc \<noteq> 0"
    and m: "1 \<le> m" "m \<le> 7" "bracket occ mine fs r c dr dc m"
    and n: "1 \<le> n" "n \<le> m - 1" "r' = r + n * dr" "c' = c + n * dc"
    by (auto simp: flipped_def list_ex_iff)
  from d have "dir8 dr dc" by (rule directions_dir8)
  from last_own_iff [OF assms this n(1), of occ mine fs] m(3) n(2)
  have "n < last_own occ mine fs r c dr dc" by auto
  with d n show ?R by blast
next
  assume ?R
  then obtain dr dc n where d: "(dr, dc) \<in> set directions" "dr \<noteq> 0 \<or> dc \<noteq> 0"
    and n: "1 \<le> n" "n < last_own occ mine fs r c dr dc" "r' = r + n * dr" "c' = c + n * dc"
    by blast
  from d have "dir8 dr dc" by (rule directions_dir8)
  from last_own_cases [OF assms this, of occ mine fs] n(1,2)
  have "1 \<le> last_own occ mine fs r c dr dc" "last_own occ mine fs r c dr dc \<le> 7"
    "bracket occ mine fs r c dr dc (last_own occ mine fs r c dr dc)"
    by auto
  note lo = this
  have "\<exists>n\<in>set [1 .. last_own occ mine fs r c dr dc - 1]. r' = r + n * dr \<and> c' = c + n * dc"
    using n by (intro bexI [of _ n]) simp_all
  with lo have "\<exists>m\<in>set [1 .. 7]. bracket occ mine fs r c dr dc m
      \<and> (\<exists>n\<in>set [1 .. m - 1]. r' = r + n * dr \<and> c' = c + n * dc)"
    by (intro bexI [of _ "last_own occ mine fs r c dr dc"]) simp_all
  with d show ?L
    unfolding flipped_def list_ex_iff by (intro bexI [of _ "(dr, dc)"]) simp_all
qed

subsection \<open>Flipping\<close>

lemma ray_pos_inj:
  assumes "dir8 dr dc" "r + n * dr = r + n' * dr" "c + n * dc = c + n' * dc"
  shows "n = n'"
  using assms by (auto simp: dir8_def)

lemma flip_run_cells:
  assumes "grid fs" "dir8 dr dc" "distinct ns"
    and "\<And>n. n \<in> set ns \<Longrightarrow> ValidCoords (r + n * dr) (c + n * dc)"
  shows "grid (flip_run tog fs r c dr dc ns)
    \<and> (\<forall>r' c'. ValidCoords r' c' \<longrightarrow>
         cell (flip_run tog fs r c dr dc ns) r' c' =
           (if \<exists>n\<in>set ns. r' = r + n * dr \<and> c' = c + n * dc then tog (cell fs r' c')
            else cell fs r' c'))"
  using assms(1,3,4)
proof (induction ns arbitrary: fs)
  case Nil
  then show ?case by simp
next
  case (Cons n ns)
  let ?fs1 = "store fs (r + n * dr) (c + n * dc) (tog (cell fs (r + n * dr) (c + n * dc)))"
  have vn: "ValidCoords (r + n * dr) (c + n * dc)" using Cons.prems(3) by simp
  have g1: "grid ?fs1" using Cons.prems(1) by (rule grid_store)
  have IH: "grid (flip_run tog ?fs1 r c dr dc ns)
    \<and> (\<forall>r' c'. ValidCoords r' c' \<longrightarrow>
         cell (flip_run tog ?fs1 r c dr dc ns) r' c' =
           (if \<exists>n\<in>set ns. r' = r + n * dr \<and> c' = c + n * dc then tog (cell ?fs1 r' c')
            else cell ?fs1 r' c'))"
    using Cons.prems by (intro Cons.IH g1) simp_all
  have c1: "cell ?fs1 r' c' = (if r' = r + n * dr \<and> c' = c + n * dc then tog (cell fs r' c')
       else cell fs r' c')" if "ValidCoords r' c'" for r' c'
  proof (cases "r' = r + n * dr \<and> c' = c + n * dc")
    case True
    then have e: "r' = r + n * dr" "c' = c + n * dc" by simp_all
    show ?thesis unfolding e using cell_store [OF Cons.prems(1) vn vn] by simp
  next
    case False
    show ?thesis by (simp only: cell_store [OF Cons.prems(1) vn that] False if_False)
  qed
  have excl: "\<not> (r + n' * dr = r + n * dr \<and> c + n' * dc = c + n * dc)" if "n' \<in> set ns" for n'
  proof
    assume "r + n' * dr = r + n * dr \<and> c + n' * dc = c + n * dc"
    with assms(2) have "n' = n" by (blast dest: ray_pos_inj)
    with that Cons.prems(2) show False by simp
  qed
  show ?case
  proof (intro conjI allI impI)
    show "grid (flip_run tog fs r c dr dc (n # ns))" using IH by simp
  next
    fix r' c' assume v: "ValidCoords r' c'"
    from IH v have "cell (flip_run tog fs r c dr dc (n # ns)) r' c' =
       (if \<exists>n\<in>set ns. r' = r + n * dr \<and> c' = c + n * dc then tog (cell ?fs1 r' c')
        else cell ?fs1 r' c')" by simp
    also have "\<dots> = (if \<exists>n\<in>set (n # ns). r' = r + n * dr \<and> c' = c + n * dc then tog (cell fs r' c')
        else cell fs r' c')"
      using c1 [OF v] excl by auto
    finally show "cell (flip_run tog fs r c dr dc (n # ns)) r' c' =
       (if \<exists>n\<in>set (n # ns). r' = r + n * dr \<and> c' = c + n * dc then tog (cell fs r' c')
        else cell fs r' c')" .
  qed
qed


lemma last_own_valid:
  assumes "ValidCoords r c" "dir8 dr dc" "1 \<le> n" "n < last_own occ mine fs r c dr dc"
  shows "ValidCoords (r + n * dr) (c + n * dc)"
proof -
  from last_own_cases [OF assms(1,2), of occ mine fs] assms(3,4)
  have "bracket occ mine fs r c dr dc (last_own occ mine fs r c dr dc)" by auto
  then have "ok_at occ fs r c dr dc n" using assms(3,4) by (simp add: bracket_run run_def)
  then show ?thesis by (simp add: ok_at_def)
qed

lemma last_own_ray_cong:
  assumes "\<And>j. 1 \<le> j \<Longrightarrow> ValidCoords (r + j * dr) (c + j * dc)
             \<Longrightarrow> cell fs' (r + j * dr) (c + j * dc) = cell fs (r + j * dr) (c + j * dc)"
  shows "last_own occ mine fs' r c dr dc = last_own occ mine fs r c dr dc"
  unfolding last_own_def
  by (rule scan_fuel_cong) (auto simp: ok_at_def own_at_def assms)

lemma flipped_on_ray:
  assumes "ValidCoords r c"
  shows "flipped occ mine fs r c r' c' \<longleftrightarrow> (\<exists>d\<in>set directions. on_ray occ mine fs r c d r' c')"
proof -
  have "(\<exists>d\<in>set directions. on_ray occ mine fs r c d r' c') \<longleftrightarrow>
     (\<exists>dr dc n. (dr, dc) \<in> set directions \<and> (dr \<noteq> 0 \<or> dc \<noteq> 0) \<and> 1 \<le> n
        \<and> n < last_own occ mine fs r c dr dc \<and> r' = r + n * dr \<and> c' = c + n * dc)"
    (is "?A \<longleftrightarrow> ?B")
  proof
    assume ?A
    then obtain d where d: "d \<in> set directions" "on_ray occ mine fs r c d r' c'" by blast
    obtain dr dc where e: "d = (dr, dc)" by (cases d)
    from d(2) e obtain n where "dr \<noteq> 0 \<or> dc \<noteq> 0" "1 \<le> n"
      "n < last_own occ mine fs r c dr dc" "r' = r + n * dr" "c' = c + n * dc"
      by (auto simp: on_ray_def)
    with d(1) e show ?B by blast
  next
    assume ?B
    then obtain dr dc n where b: "(dr, dc) \<in> set directions" "dr \<noteq> 0 \<or> dc \<noteq> 0" "1 \<le> n"
      "n < last_own occ mine fs r c dr dc" "r' = r + n * dr" "c' = c + n * dc"
      by blast
    then have "on_ray occ mine fs r c (dr, dc) r' c'"
      unfolding on_ray_def fst_conv snd_conv by blast
    with b(1) show ?A by blast
  qed
  then show ?thesis by (simp only: flipped_iff [OF assms])
qed

lemma on_ray_excl:
  assumes "d \<in> set directions" "d' \<in> set directions" "d \<noteq> d'"
    and "on_ray occ mine fs r c d r' c'"
  shows "\<not> on_ray occ mine fs' r c d' r' c'"
proof
  assume a: "on_ray occ mine fs' r c d' r' c'"
  obtain dr dc dr' dc' where d: "d = (dr, dc)" "d' = (dr', dc')" by (cases d, cases d')
  from assms(4) d obtain n where n: "dr \<noteq> 0 \<or> dc \<noteq> 0" "1 \<le> n" "r' = r + n * dr" "c' = c + n * dc"
    by (auto simp: on_ray_def)
  from a d obtain n' where n': "dr' \<noteq> 0 \<or> dc' \<noteq> 0" "1 \<le> n'" "r' = r + n' * dr'" "c' = c + n' * dc'"
    by (auto simp: on_ray_def)
  have "dir8 dr dc" "dir8 dr' dc'"
    using assms(1,2) d n(1) n'(1) by (auto intro: directions_dir8)
  from ray_inj [OF this n(2) n'(2)] n(3,4) n'(3,4) have "dr = dr' \<and> dc = dc'" by simp
  with d assms(3) show False by simp
qed

lemma flip_dirs_cells:
  assumes "grid fs" "ValidCoords r c" "distinct ds" "set ds \<subseteq> set directions"
  shows "grid (flip_dirs occ mine tog fs r c ds)
    \<and> (\<forall>r' c'. ValidCoords r' c' \<longrightarrow>
         cell (flip_dirs occ mine tog fs r c ds) r' c' =
           (if \<exists>d\<in>set ds. on_ray occ mine fs r c d r' c' then tog (cell fs r' c')
            else cell fs r' c'))"
  using assms(1,3,4)
proof (induction ds arbitrary: fs)
  case Nil
  then show ?case by simp
next
  case (Cons d ds)
  obtain dr dc where d: "d = (dr, dc)" by (cases d)
  from Cons.prems have dd: "d \<in> set directions" "distinct ds" "set ds \<subseteq> set directions" "d \<notin> set ds"
    by simp_all
  show ?case
  proof (cases "dr \<noteq> 0 \<or> dc \<noteq> 0")
    case False
    then have "\<And>r' c'. \<not> on_ray occ mine fs r c d r' c'" by (simp add: on_ray_def d)
    with Cons.IH [OF Cons.prems(1) dd(2,3)] False d show ?thesis by simp
  next
    case True
    with dd(1) d have d8: "dir8 dr dc" by (auto intro: directions_dir8)
    let ?L = "last_own occ mine fs r c dr dc"
    let ?fs1 = "flip_run tog fs r c dr dc [1 .. ?L - 1]"
    have valid: "ValidCoords (r + n * dr) (c + n * dc)" if "n \<in> set [1 .. ?L - 1]" for n
      using that by (intro last_own_valid [OF assms(2) d8, of n occ mine fs]) simp_all
    from flip_run_cells [OF Cons.prems(1) d8 _ valid, of "[1 .. ?L - 1]" tog]
    have g1: "grid ?fs1"
      and c1: "\<And>r' c'. ValidCoords r' c' \<Longrightarrow> cell ?fs1 r' c' =
           (if \<exists>n\<in>set [1 .. ?L - 1]. r' = r + n * dr \<and> c' = c + n * dc then tog (cell fs r' c')
            else cell fs r' c')"
      by simp_all
    have ray: "(\<exists>n\<in>set [1 .. ?L - 1]. r' = r + n * dr \<and> c' = c + n * dc)
        \<longleftrightarrow> on_ray occ mine fs r c d r' c'" for r' c'
      using True by (auto simp: on_ray_def d)
    have c1': "cell ?fs1 r' c' = (if on_ray occ mine fs r c d r' c' then tog (cell fs r' c')
            else cell fs r' c')" if "ValidCoords r' c'" for r' c'
      using c1 [OF that] by (simp only: ray)
    have same: "on_ray occ mine ?fs1 r c d' r' c' \<longleftrightarrow> on_ray occ mine fs r c d' r' c'"
      if d': "d' \<in> set ds" for d' r' c'
    proof -
      obtain dr' dc' where e: "d' = (dr', dc')" by (cases d')
      show ?thesis
      proof (cases "dr' \<noteq> 0 \<or> dc' \<noteq> 0")
        case False
        then show ?thesis by (simp add: on_ray_def e)
      next
        case nz: True
        from d' dd(3) e nz have d8': "dir8 dr' dc'" by (auto intro: directions_dir8)
        from d' dd(4) have ne: "d \<noteq> d'" by auto
        have "cell ?fs1 (r + j * dr') (c + j * dc') = cell fs (r + j * dr') (c + j * dc')"
          if j: "1 \<le> j" "ValidCoords (r + j * dr') (c + j * dc')" for j
        proof -
          have "\<not> on_ray occ mine fs r c d (r + j * dr') (c + j * dc')"
          proof
            assume "on_ray occ mine fs r c d (r + j * dr') (c + j * dc')"
            then obtain n where n: "1 \<le> n" "r + j * dr' = r + n * dr" "c + j * dc' = c + n * dc"
              by (auto simp: on_ray_def d)
            from ray_inj [OF d8' d8 j(1) n(1) n(2,3)] have "dr' = dr \<and> dc' = dc" by simp
            with ne d e show False by simp
          qed
          with c1' [OF j(2)] show ?thesis by simp
        qed
        then have "last_own occ mine ?fs1 r c dr' dc' = last_own occ mine fs r c dr' dc'"
          by (rule last_own_ray_cong)
        then show ?thesis by (simp add: on_ray_def e)
      qed
    qed
    from Cons.IH [OF g1 dd(2,3)]
    have gi: "grid (flip_dirs occ mine tog ?fs1 r c ds)"
      and ci: "\<And>r' c'. ValidCoords r' c' \<Longrightarrow> cell (flip_dirs occ mine tog ?fs1 r c ds) r' c' =
           (if \<exists>d\<in>set ds. on_ray occ mine ?fs1 r c d r' c' then tog (cell ?fs1 r' c')
            else cell ?fs1 r' c')"
      by simp_all
    have unf: "flip_dirs occ mine tog fs r c (d # ds) = flip_dirs occ mine tog ?fs1 r c ds"
      using True by (simp add: d)
    show ?thesis
    proof (intro conjI allI impI)
      show "grid (flip_dirs occ mine tog fs r c (d # ds))" using gi unf by simp
    next
      fix r' c' assume v: "ValidCoords r' c'"
      have ex: "(\<exists>d\<in>set ds. on_ray occ mine ?fs1 r c d r' c')
          \<longleftrightarrow> (\<exists>d\<in>set ds. on_ray occ mine fs r c d r' c')"
        using same by blast
      show "cell (flip_dirs occ mine tog fs r c (d # ds)) r' c' =
           (if \<exists>d\<in>set (d # ds). on_ray occ mine fs r c d r' c' then tog (cell fs r' c')
            else cell fs r' c')"
      proof (cases "on_ray occ mine fs r c d r' c'")
        case on: True
        have "\<not> (\<exists>d'\<in>set ds. on_ray occ mine fs r c d' r' c')"
        proof
          assume "\<exists>d'\<in>set ds. on_ray occ mine fs r c d' r' c'"
          then obtain d' where d': "d' \<in> set ds" "on_ray occ mine fs r c d' r' c'" by blast
          from d'(1) dd(3,4) have "d' \<in> set directions" "d \<noteq> d'" by auto
          from on_ray_excl [OF dd(1) this on, of fs] d'(2) show False by simp
        qed
        with on ci [OF v] c1' [OF v] ex unf show ?thesis by simp
      next
        case off: False
        with ci [OF v] c1' [OF v] ex unf show ?thesis by simp
      qed
    qed
  qed
qed

lemma distinct_directions: "distinct directions"
  by (simp add: directions_def)

lemma flip_all_cells:
  assumes "grid fs" "ValidCoords r c"
  shows "grid (flip_dirs occ mine tog fs r c directions)"
    and "ValidCoords r' c' \<Longrightarrow> cell (flip_dirs occ mine tog fs r c directions) r' c' =
           (if flipped occ mine fs r c r' c' then tog (cell fs r' c') else cell fs r' c')"
  using flip_dirs_cells [OF assms distinct_directions subset_refl, of occ mine tog]
  by (simp_all add: flipped_on_ray [OF assms(2)])


subsection \<open>The player's scans\<close>


lemma DoFlips_scan_unfold:
  "DoFlips_scan flds p r c dr dc n l =
     (if \<not> ok_at (\<lambda>x. x \<noteq> NONE) flds r c dr dc n then Some l
      else DoFlips_scan flds p r c dr dc (n + 1) (if own_at (\<lambda>x. x = p) flds r c dr dc n then n else l))"
  by (subst DoFlips_scan.simps)
     (simp add: ok_at_def own_at_def ValidCoords_player_eq mult.commute)

lemma DoFlips_scan_eq:
  assumes "ValidCoords r c" "dir8 dr dc"
  shows "DoFlips_scan flds p r c dr dc 1 0 = Some (last_own (\<lambda>x. x \<noteq> NONE) (\<lambda>x. x = p) flds r c dr dc)"
  unfolding last_own_def
proof (rule scan_is_scan_fuel [where N = 8])
  show "DoFlips_scan flds p r c dr dc n l =
     (if \<not> ok_at (\<lambda>x. x \<noteq> NONE) flds r c dr dc n then Some l
      else DoFlips_scan flds p r c dr dc (n + 1) (if own_at (\<lambda>x. x = p) flds r c dr dc n then n else l))"
    for n l by (rule DoFlips_scan_unfold)
  show "\<not> ok_at (\<lambda>x. x \<noteq> NONE) flds r c dr dc n" if "8 \<le> n" for n
    using assms that by (rule ok_at_off_board)
  show "(8 :: int) \<le> 1 + int 8" by simp
qed

lemma DoFlips_flip_eq: "DoFlips_flip flds r c dr dc ns = flip_run Other flds r c dr dc ns"
  by (induction ns arbitrary: flds) simp_all

lemma DoFlips_dirs_eq:
  assumes "ValidCoords r c" "set ds \<subseteq> set directions"
  shows "DoFlips_dirs flds p r c ds = Some (flip_dirs (\<lambda>x. x \<noteq> NONE) (\<lambda>x. x = p) Other flds r c ds)"
  using assms(2)
proof (induction ds arbitrary: flds)
  case Nil
  then show ?case by simp
next
  case (Cons d ds)
  obtain dr dc where d: "d = (dr, dc)" by (cases d)
  show ?case
  proof (cases "dr \<noteq> 0 \<or> dc \<noteq> 0")
    case False
    with Cons d show ?thesis by simp
  next
    case True
    with Cons.prems d have "dir8 dr dc" by (auto intro: directions_dir8)
    from DoFlips_scan_eq [OF assms(1) this] Cons True d show ?thesis
      by (simp add: DoFlips_flip_eq)
  qed
qed

lemma DoFlips_eq:
  "ValidCoords r c \<Longrightarrow> DoFlips flds p r c = Some (flip_dirs (\<lambda>x. x \<noteq> NONE) (\<lambda>x. x = p) Other flds r c directions)"
  by (simp add: DoFlips_def DoFlips_dirs_eq)

text \<open>\<^verbatim>\<open>HasFlips\<close> stops at the first own disc at a distance of two or more.\<close>

lemma scan_is_has_fuel:
  fixes f :: "int \<Rightarrow> bool option"
  assumes unfold: "\<And>n. f n = (if \<not> ok n then Some False else if own n \<and> n > 1 then Some True else f (n + 1))"
    and bound: "\<And>n. N \<le> n \<Longrightarrow> \<not> ok n"
  shows "N \<le> n + int k \<Longrightarrow> f n = Some (has_fuel k ok own n)"
proof (induction k arbitrary: n)
  case 0
  then have "\<not> ok n" using bound by simp
  then show ?case by (subst unfold) simp
next
  case (Suc k)
  have "f (n + 1) = Some (has_fuel k ok own (n + 1))"
    using Suc.prems by (intro Suc.IH) simp
  then show ?case by (subst unfold) simp
qed

lemma has_fuel_scan_fuel:
  "1 \<le> n \<Longrightarrow> l \<le> 1 \<Longrightarrow> has_fuel k ok own n \<longleftrightarrow> 1 < scan_fuel k ok own n l"
proof (induction k arbitrary: n l)
  case 0
  then show ?case by simp
next
  case (Suc k)
  show ?case
  proof (cases "ok n")
    case False
    with Suc.prems show ?thesis by simp
  next
    case ok: True
    show ?thesis
    proof (cases "own n \<and> n > 1")
      case True
      from scan_fuel_range [of k ok own "n + 1" n] True
      have "1 < scan_fuel k ok own (n + 1) n" by auto
      with ok True show ?thesis by simp
    next
      case False
      with Suc.prems have "(if own n then n else l) \<le> 1" by auto
      from Suc.IH [OF _ this, of "n + 1"] Suc.prems(1) ok False show ?thesis by auto
    qed
  qed
qed

lemma HasFlips_scan_unfold:
  "HasFlips_scan flds p r c dr dc n =
     (if \<not> ok_at (\<lambda>x. x \<noteq> NONE) flds r c dr dc n then Some False
      else if own_at (\<lambda>x. x = p) flds r c dr dc n \<and> n > 1 then Some True
      else HasFlips_scan flds p r c dr dc (n + 1))"
  by (subst HasFlips_scan.simps)
     (simp add: ok_at_def own_at_def ValidCoords_player_eq mult.commute)

lemma HasFlips_scan_eq:
  assumes "ValidCoords r c" "dir8 dr dc"
  shows "HasFlips_scan flds p r c dr dc 1 = Some (1 < last_own (\<lambda>x. x \<noteq> NONE) (\<lambda>x. x = p) flds r c dr dc)"
proof -
  have "HasFlips_scan flds p r c dr dc 1 =
      Some (has_fuel 8 (ok_at (\<lambda>x. x \<noteq> NONE) flds r c dr dc) (own_at (\<lambda>x. x = p) flds r c dr dc) 1)"
  proof (rule scan_is_has_fuel [where N = 8])
    show "HasFlips_scan flds p r c dr dc n =
       (if \<not> ok_at (\<lambda>x. x \<noteq> NONE) flds r c dr dc n then Some False
        else if own_at (\<lambda>x. x = p) flds r c dr dc n \<and> n > 1 then Some True
        else HasFlips_scan flds p r c dr dc (n + 1))" for n
      by (rule HasFlips_scan_unfold)
    show "\<not> ok_at (\<lambda>x. x \<noteq> NONE) flds r c dr dc n" if "8 \<le> n" for n
      using assms that by (rule ok_at_off_board)
    show "(8 :: int) \<le> 1 + int 8" by simp
  qed
  then show ?thesis by (simp add: has_fuel_scan_fuel [where l = 0] last_own_def)
qed

lemma HasFlips_dirs_eq:
  assumes "ValidCoords r c" "set ds \<subseteq> set directions"
  shows "HasFlips_dirs flds p r c ds =
     Some (\<exists>d\<in>set ds. (fst d \<noteq> 0 \<or> snd d \<noteq> 0) \<and> 1 < last_own (\<lambda>x. x \<noteq> NONE) (\<lambda>x. x = p) flds r c (fst d) (snd d))"
  using assms(2)
proof (induction ds)
  case Nil
  then show ?case by simp
next
  case (Cons d ds)
  obtain dr dc where d: "d = (dr, dc)" by (cases d)
  show ?case
  proof (cases "dr \<noteq> 0 \<or> dc \<noteq> 0")
    case False
    with Cons d show ?thesis by simp
  next
    case True
    with Cons.prems d have "dir8 dr dc" by (auto intro: directions_dir8)
    from HasFlips_scan_eq [OF assms(1) this] Cons True d show ?thesis by auto
  qed
qed

text \<open>Some direction has its last own disc beyond distance 1 exactly when some cell is in
  the flip set; such a cell is on the board.\<close>

lemma some_flip_iff:
  assumes "ValidCoords r c"
  shows "(\<exists>d\<in>set directions. (fst d \<noteq> 0 \<or> snd d \<noteq> 0) \<and> 1 < last_own occ mine fs r c (fst d) (snd d))
     \<longleftrightarrow> (\<exists>r' c'. flipped occ mine fs r c r' c')"
    (is "?A \<longleftrightarrow> ?B")
proof
  assume ?A
  then obtain dr dc where d: "(dr, dc) \<in> set directions" "dr \<noteq> 0 \<or> dc \<noteq> 0"
    "1 < last_own occ mine fs r c dr dc" by auto
  have "flipped occ mine fs r c (r + 1 * dr) (c + 1 * dc)"
    unfolding flipped_iff [OF assms] using d by (intro exI [of _ dr] exI [of _ dc] exI [of _ 1]) simp
  then show ?B by blast
next
  assume ?B
  then obtain r' c' where "flipped occ mine fs r c r' c'" by blast
  then obtain dr dc n where d: "(dr, dc) \<in> set directions" "dr \<noteq> 0 \<or> dc \<noteq> 0" "1 \<le> n"
    "n < last_own occ mine fs r c dr dc"
    unfolding flipped_iff [OF assms] by blast
  then have "1 < last_own occ mine fs r c dr dc" by simp
  with d(1,2) show ?A by (intro bexI [of _ "(dr, dc)"]) simp_all
qed

lemma flipped_valid:
  assumes "ValidCoords r c" "flipped occ mine fs r c r' c'"
  shows "ValidCoords r' c'"
proof -
  from assms obtain dr dc n where d: "(dr, dc) \<in> set directions" "dr \<noteq> 0 \<or> dc \<noteq> 0" "1 \<le> n"
    "n < last_own occ mine fs r c dr dc" "r' = r + n * dr" "c' = c + n * dc"
    unfolding flipped_iff [OF assms(1)] by blast
  from d(1,2) have "dir8 dr dc" by (rule directions_dir8)
  from last_own_valid [OF assms(1) this d(3,4)] d(5,6) show ?thesis by simp
qed

lemma HasFlips_eq:
  assumes "ValidCoords r c"
  shows "HasFlips flds p r c = Some (\<exists>r' c'. flipped (\<lambda>x. x \<noteq> NONE) (\<lambda>x. x = p) flds r c r' c')"
  by (simp only: HasFlips_def HasFlips_dirs_eq [OF assms subset_refl] some_flip_iff [OF assms])

lemma last_own_stable:
  assumes v: "ValidCoords r c" and d: "dir8 dr dc"
    and occ: "\<And>j. 1 \<le> j \<Longrightarrow> ValidCoords (r + j * dr) (c + j * dc)
        \<Longrightarrow> occ (cell fs' (r + j * dr) (c + j * dc)) = occ (cell fs (r + j * dr) (c + j * dc))"
    and mine: "\<And>j. last_own occ mine fs r c dr dc \<le> j \<Longrightarrow> 1 \<le> j
        \<Longrightarrow> ValidCoords (r + j * dr) (c + j * dc)
        \<Longrightarrow> mine (cell fs' (r + j * dr) (c + j * dc)) = mine (cell fs (r + j * dr) (c + j * dc))"
  shows "last_own occ mine fs' r c dr dc = last_own occ mine fs r c dr dc"
proof -
  let ?L = "last_own occ mine fs r c dr dc" and ?L' = "last_own occ mine fs' r c dr dc"
  have ok: "ok_at occ fs' r c dr dc j = ok_at occ fs r c dr dc j" if "1 \<le> j" for j
    using occ [OF that] by (auto simp: ok_at_def)
  have run: "run (ok_at occ fs' r c dr dc) 1 m = run (ok_at occ fs r c dr dc) 1 m" for m
    using ok by (auto simp: run_def)
  have br: "bracket occ mine fs' r c dr dc m = bracket occ mine fs r c dr dc m"
    if "?L \<le> m" "1 \<le> m" for m
  proof (cases "ok_at occ fs r c dr dc m")
    case True
    then have "ValidCoords (r + m * dr) (c + m * dc)" by (simp add: ok_at_def)
    from mine [OF that this] show ?thesis by (simp add: bracket_run run own_at_def)
  next
    case False
    with that(2) have "\<not> run (ok_at occ fs r c dr dc) 1 m" by (auto simp: run_def)
    then show ?thesis by (simp add: bracket_run run)
  qed
  from last_own_cases [OF v d, of occ mine fs]
  consider (none) "?L = 0" "\<forall>m\<ge>1. \<not> bracket occ mine fs r c dr dc m"
    | (some) "1 \<le> ?L" "bracket occ mine fs r c dr dc ?L"
        "\<forall>m\<ge>1. bracket occ mine fs r c dr dc m \<longrightarrow> m \<le> ?L"
    by blast
  then show ?thesis
  proof cases
    case none
    then have "\<forall>m\<ge>1. \<not> bracket occ mine fs' r c dr dc m" using br by simp
    with last_own_cases [OF v d, of occ mine fs'] none(1) show ?thesis by auto
  next
    case some
    from some(1,2) have b': "bracket occ mine fs' r c dr dc ?L" using br by simp
    with last_own_cases [OF v d, of occ mine fs'] some(1)
    have L': "?L \<le> ?L'" "bracket occ mine fs' r c dr dc ?L'" by auto
    with some(1) have "bracket occ mine fs r c dr dc ?L'" using br by simp
    with some(1,3) L'(1) have "?L' \<le> ?L" by simp
    with L'(1) show ?thesis by simp
  qed
qed

lemma Other_simps [simp]: "Other NONE = NONE" "Other WHITE = BLACK" "Other BLACK = WHITE"
  by (simp_all add: Other_def Player_of_int_def)

lemma Other_Other [simp]: "Other (Other x) = x"
  by (cases x) simp_all

lemma Other_eq_NONE [simp]: "Other x = NONE \<longleftrightarrow> x = NONE"
  by (cases x) simp_all

lemma not_flipped_origin:
  assumes "ValidCoords r c"
  shows "\<not> flipped occ mine fs r c r c"
proof
  assume "flipped occ mine fs r c r c"
  then obtain dr dc n where "(dr, dc) \<in> set directions" "dr \<noteq> 0 \<or> dc \<noteq> 0" "1 \<le> n"
    "r = r + n * dr" "c = c + n * dc"
    unfolding flipped_iff [OF assms] by blast
  then show False by auto
qed

text \<open>The flip set reads the board only on the eight rays, never at \<open>(r, c)\<close> itself, and
  only through \<open>occ\<close> everywhere and \<open>mine\<close> from the last own disc on.\<close>

lemma flipped_stable:
  assumes v: "ValidCoords r c"
    and occ: "\<And>r' c'. ValidCoords r' c' \<Longrightarrow> (r', c') \<noteq> (r, c)
        \<Longrightarrow> occ (cell fs' r' c') = occ (cell fs r' c')"
    and mine: "\<And>r' c'. ValidCoords r' c' \<Longrightarrow> (r', c') \<noteq> (r, c)
        \<Longrightarrow> \<not> flipped occ mine fs r c r' c'
        \<Longrightarrow> mine (cell fs' r' c') = mine (cell fs r' c')"
  shows "flipped occ mine fs' r c r' c' = flipped occ mine fs r c r' c'"
proof -
  have "last_own occ mine fs' r c dr dc = last_own occ mine fs r c dr dc"
    if d: "(dr, dc) \<in> set directions" "dr \<noteq> 0 \<or> dc \<noteq> 0" for dr dc
  proof (rule last_own_stable [OF v])
    from d show d8: "dir8 dr dc" by (rule directions_dir8)
    have ne: "(r + j * dr, c + j * dc) \<noteq> (r, c)" if "1 \<le> j" for j
      using d8 that by (auto simp: dir8_def)
    show "occ (cell fs' (r + j * dr) (c + j * dc)) = occ (cell fs (r + j * dr) (c + j * dc))"
      if "1 \<le> j" "ValidCoords (r + j * dr) (c + j * dc)" for j
      using occ [OF that(2) ne [OF that(1)]] .
    show "mine (cell fs' (r + j * dr) (c + j * dc)) = mine (cell fs (r + j * dr) (c + j * dc))"
      if j: "last_own occ mine fs r c dr dc \<le> j" "1 \<le> j" "ValidCoords (r + j * dr) (c + j * dc)" for j
    proof (rule mine [OF j(3) ne [OF j(2)]])
      show "\<not> flipped occ mine fs r c (r + j * dr) (c + j * dc)"
      proof
        assume "flipped occ mine fs r c (r + j * dr) (c + j * dc)"
        then obtain dr' dc' n where n: "(dr', dc') \<in> set directions" "dr' \<noteq> 0 \<or> dc' \<noteq> 0" "1 \<le> n"
          "n < last_own occ mine fs r c dr' dc'" "r + j * dr = r + n * dr'" "c + j * dc = c + n * dc'"
          unfolding flipped_iff [OF v] by blast
        from n(1,2) have "dir8 dr' dc'" by (rule directions_dir8)
        from ray_inj [OF d8 this j(2) n(3) n(5,6)] have "dr = dr'" "dc = dc'" "j = n" by simp_all
        with n(4) j(1) show False by simp
      qed
    qed
  qed
  then show ?thesis unfolding flipped_iff [OF v] by metis
qed

subsection \<open>Doing and undoing a move\<close>

lemma DoFlips_cells:
  assumes "grid flds" "ValidCoords r c"
  shows "\<exists>flds'. DoFlips flds p r c = Some flds' \<and> grid flds'
     \<and> (\<forall>r' c'. ValidCoords r' c' \<longrightarrow> cell flds' r' c' =
           (if flipped (\<lambda>x. x \<noteq> NONE) (\<lambda>x. x = p) flds r c r' c' then Other (cell flds r' c')
            else cell flds r' c'))"
  using flip_all_cells [OF assms, where occ = "\<lambda>x. x \<noteq> NONE" and mine = "\<lambda>x. x = p" and tog = Other]
    DoFlips_eq [OF assms(2), of flds p]
  by simp

lemma DoMove_UndoMove:
  assumes g: "grid (b_fields board)" and v: "ValidCoords (row move) (col move)"
    and e: "cell (b_fields board) (row move) (col move) = NONE"
  shows "\<exists>board'. DoMove board move = Some board' \<and> UndoMove board' move = Some board"
proof -
  let ?r = "row move" and ?c = "col move" and ?p = "next_player board" and ?fs = "b_fields board"
  let ?fs1 = "store ?fs ?r ?c ?p"
  have inb: "0 \<le> ?r \<and> ?r < H \<and> 0 \<le> ?c \<and> ?c < W"
    using v by (simp add: ValidCoords_iff H_def W_def)
  have g1: "grid ?fs1" using g by (rule grid_store)
  from DoFlips_cells [OF g1 v, of ?p] obtain fs2 where
    f2: "DoFlips ?fs1 ?p ?r ?c = Some fs2" and g2: "grid fs2"
    and c2: "\<And>r' c'. ValidCoords r' c' \<Longrightarrow> cell fs2 r' c' =
           (if flipped (\<lambda>x. x \<noteq> NONE) (\<lambda>x. x = ?p) ?fs1 ?r ?c r' c' then Other (cell ?fs1 r' c')
            else cell ?fs1 r' c')"
    by blast
  let ?b' = "\<lparr>b_fields = fs2, next_player = Other ?p\<rparr>"
  have dm: "DoMove board move = Some ?b'"
    using inb e f2 by (simp add: DoMove_def Let_def)
  have o2: "cell fs2 ?r ?c = ?p"
    using c2 [OF v] not_flipped_origin [OF v, of "\<lambda>x. x \<noteq> NONE" "\<lambda>x. x = ?p" ?fs1]
      cell_store [OF g v v, of ?p] by simp
  let ?fs3 = "store fs2 ?r ?c NONE"
  have g3: "grid ?fs3" using g2 by (rule grid_store)
  from DoFlips_cells [OF g3 v, of ?p] obtain fs4 where
    f4: "DoFlips ?fs3 ?p ?r ?c = Some fs4" and g4: "grid fs4"
    and c4: "\<And>r' c'. ValidCoords r' c' \<Longrightarrow> cell fs4 r' c' =
           (if flipped (\<lambda>x. x \<noteq> NONE) (\<lambda>x. x = ?p) ?fs3 ?r ?c r' c' then Other (cell ?fs3 r' c')
            else cell ?fs3 r' c')"
    by blast
  have um: "UndoMove ?b' move = Some \<lparr>b_fields = fs4, next_player = ?p\<rparr>"
    using inb o2 f4 by (simp add: UndoMove_def Let_def)
  have c3: "cell ?fs3 r' c' = cell fs2 r' c'" if "ValidCoords r' c'" "(r', c') \<noteq> (?r, ?c)" for r' c'
    using cell_store [OF g2 v that(1)] that(2) by auto
  have c1: "cell ?fs1 r' c' = cell ?fs r' c'" if "ValidCoords r' c'" "(r', c') \<noteq> (?r, ?c)" for r' c'
    using cell_store [OF g v that(1)] that(2) by auto
  have fl: "flipped (\<lambda>x. x \<noteq> NONE) (\<lambda>x. x = ?p) ?fs3 ?r ?c r' c' = flipped (\<lambda>x. x \<noteq> NONE) (\<lambda>x. x = ?p) ?fs1 ?r ?c r' c'"
    for r' c'
  proof (rule flipped_stable [OF v])
    show "(cell ?fs3 r' c' \<noteq> NONE) = (cell ?fs1 r' c' \<noteq> NONE)"
      if "ValidCoords r' c'" "(r', c') \<noteq> (?r, ?c)" for r' c'
      using c3 [OF that] c2 [OF that(1)] by simp
    show "(cell ?fs3 r' c' = ?p) = (cell ?fs1 r' c' = ?p)"
      if "ValidCoords r' c'" "(r', c') \<noteq> (?r, ?c)" "\<not> flipped (\<lambda>x. x \<noteq> NONE) (\<lambda>x. x = ?p) ?fs1 ?r ?c r' c'"
      for r' c'
      using c3 [OF that(1,2)] c2 [OF that(1)] that(3) by simp
  qed
  have "fs4 = ?fs"
  proof (rule grid_ext [OF g4 g])
    fix r' c' assume v': "ValidCoords r' c'"
    show "cell fs4 r' c' = cell ?fs r' c'"
    proof (cases "(r', c') = (?r, ?c)")
      case True
      then have "cell fs4 r' c' = cell ?fs3 ?r ?c"
        using c4 [OF v] not_flipped_origin [OF v, of "\<lambda>x. x \<noteq> NONE" "\<lambda>x. x = ?p" ?fs3] by simp
      also have "\<dots> = NONE" using cell_store [OF g2 v v] by simp
      finally show ?thesis using True e by simp
    next
      case False
      show ?thesis
        using c4 [OF v'] fl c3 [OF v' False] c2 [OF v'] c1 [OF v' False] by simp
    qed
  qed
  then have "\<lparr>b_fields = fs4, next_player = ?p\<rparr> = board" by simp
  with dm um show ?thesis by simp
qed

text \<open>
  Claim C3. For every board whose target cell \<open>(row move, col move)\<close> is a cell of the
  board and is empty, \<^verbatim>\<open>DoMove\<close> returns, and \<^verbatim>\<open>UndoMove\<close> with the same move on the board
  it leaves returns the board \<^verbatim>\<open>DoMove\<close> started from: all 64 cells and the player to move.
\<close>

theorem DoMove_UndoMove_round_trip:
  assumes "grid (b_fields board)" "ValidCoords (row move) (col move)"
    and "cell (b_fields board) (row move) (col move) = NONE"
  shows "\<exists>board'. DoMove board move = Some board' \<and> UndoMove board' move = Some board
           \<and> (\<forall>board''. UndoMove board' move = Some board'' \<longrightarrow> Board_eq board'' board)"
proof -
  from DoMove_UndoMove [OF assms] obtain board' where
    b: "DoMove board move = Some board'" "UndoMove board' move = Some board"
    by blast
  have "Board_eq board board" by (simp add: Board_eq_def list_all_iff)
  with b show ?thesis by auto
qed

theorem DoMove_UndoMove_round_trip_witness:
  "grid (b_fields InitialBoard) \<and> ValidCoords 2 2
   \<and> cell (b_fields InitialBoard) 2 2 = NONE
   \<and> (\<exists>board'. DoMove InitialBoard \<lparr>row = 2, col = 2\<rparr> = Some board'
         \<and> cell (b_fields board') 3 3 = BLACK
         \<and> UndoMove board' \<lparr>row = 2, col = 2\<rparr> = Some InitialBoard)"
proof -
  have g: "grid (b_fields InitialBoard)" by code_simp
  have v: "ValidCoords (row \<lparr>row = 2, col = 2\<rparr>) (col \<lparr>row = 2, col = 2\<rparr>)" by code_simp
  have e: "cell (b_fields InitialBoard) (row \<lparr>row = 2, col = 2\<rparr>) (col \<lparr>row = 2, col = 2\<rparr>) = NONE"
    by code_simp
  from DoMove_UndoMove_round_trip [OF g v e] obtain board' where
    b: "DoMove InitialBoard \<lparr>row = 2, col = 2\<rparr> = Some board'"
       "UndoMove board' \<lparr>row = 2, col = 2\<rparr> = Some InitialBoard"
    by blast
  have "map_option (\<lambda>b. cell (b_fields b) 3 3) (DoMove InitialBoard \<lparr>row = 2, col = 2\<rparr>) = Some BLACK"
    by code_simp
  with b(1) have "cell (b_fields board') 3 3 = BLACK" by simp
  with g v e b show ?thesis by auto
qed

subsection \<open>The arbiter's scans\<close>

lemma FindFlips_scan_unfold:
  "FindFlips_scan state player r c dr dc n l =
     (if \<not> ok_at (\<lambda>x. x \<noteq> 0) (s_fields state) r c dr dc n then Some l
      else FindFlips_scan state player r c dr dc (n + 1)
             (if own_at (\<lambda>x. sint x = player) (s_fields state) r c dr dc n then n else l))"
  by (subst FindFlips_scan.simps) (simp add: ok_at_def own_at_def)

lemma FindFlips_scan_eq:
  assumes "ValidCoords r c" "dir8 dr dc"
  shows "FindFlips_scan state player r c dr dc 1 0 =
     Some (last_own (\<lambda>x. x \<noteq> 0) (\<lambda>x. sint x = player) (s_fields state) r c dr dc)"
  unfolding last_own_def
proof (rule scan_is_scan_fuel [where N = 8])
  show "FindFlips_scan state player r c dr dc n l =
     (if \<not> ok_at (\<lambda>x. x \<noteq> 0) (s_fields state) r c dr dc n then Some l
      else FindFlips_scan state player r c dr dc (n + 1)
             (if own_at (\<lambda>x. sint x = player) (s_fields state) r c dr dc n then n else l))"
    for n l by (rule FindFlips_scan_unfold)
  show "\<not> ok_at (\<lambda>x. x \<noteq> 0) (s_fields state) r c dr dc n" if "8 \<le> n" for n
    using assms that by (rule ok_at_off_board)
  show "(8 :: int) \<le> 1 + int 8" by simp
qed

lemma FindFlips_calls_flip:
  "FindFlips_calls flip_callback r c dr dc ns state =
     (True, state\<lparr>s_fields := flip_run (\<lambda>x. x XOR 3) (s_fields state) r c dr dc ns\<rparr>)"
  by (induction ns arbitrary: state) (simp_all add: flip_callback_def)

lemma FindFlips_calls_abort:
  "FindFlips_calls abort_callback r c dr dc ns state = (ns = [], state)"
  by (cases ns) (simp_all add: abort_callback_def)

lemma FindFlips_dirs_flip:
  assumes "ValidCoords r c" "set ds \<subseteq> set directions"
  shows "FindFlips_dirs flip_callback player r c ds state =
     Some (True, state\<lparr>s_fields :=
        flip_dirs (\<lambda>x. x \<noteq> 0) (\<lambda>x. sint x = player) (\<lambda>x. x XOR 3) (s_fields state) r c ds\<rparr>)"
  using assms(2)
proof (induction ds arbitrary: state)
  case Nil
  then show ?case by simp
next
  case (Cons d ds)
  obtain dr dc where d: "d = (dr, dc)" by (cases d)
  show ?case
  proof (cases "dr \<noteq> 0 \<or> dc \<noteq> 0")
    case False
    with Cons d show ?thesis by simp
  next
    case True
    with Cons.prems d have "dir8 dr dc" by (auto intro: directions_dir8)
    from FindFlips_scan_eq [OF assms(1) this] Cons True d show ?thesis
      by (simp add: FindFlips_calls_flip)
  qed
qed

lemma FindFlips_dirs_abort:
  assumes "ValidCoords r c" "set ds \<subseteq> set directions"
  shows "FindFlips_dirs abort_callback player r c ds state =
     Some (\<not> (\<exists>d\<in>set ds. (fst d \<noteq> 0 \<or> snd d \<noteq> 0)
                \<and> 1 < last_own (\<lambda>x. x \<noteq> 0) (\<lambda>x. sint x = player) (s_fields state) r c (fst d) (snd d)),
           state)"
  using assms(2)
proof (induction ds)
  case Nil
  then show ?case by simp
next
  case (Cons d ds)
  obtain dr dc where d: "d = (dr, dc)" by (cases d)
  show ?case
  proof (cases "dr \<noteq> 0 \<or> dc \<noteq> 0")
    case False
    with Cons d show ?thesis by simp
  next
    case True
    with Cons.prems d have "dir8 dr dc" by (auto intro: directions_dir8)
    have e: "[1 .. l - 1] = [] \<longleftrightarrow> \<not> 1 < l" for l :: int by auto
    from FindFlips_scan_eq [OF assms(1) \<open>dir8 dr dc\<close>] Cons True d show ?thesis
      by (auto simp: FindFlips_calls_abort e)
  qed
qed

lemma FindFlips_flip_eq:
  assumes "ValidCoords r c"
  shows "FindFlips state player r c flip_callback =
     Some (True, state\<lparr>s_fields :=
        flip_dirs (\<lambda>x. x \<noteq> 0) (\<lambda>x. sint x = player) (\<lambda>x. x XOR 3) (s_fields state) r c directions\<rparr>)"
  by (simp add: FindFlips_def FindFlips_dirs_flip [OF assms])

lemma FindFlips_abort_eq:
  assumes "ValidCoords r c"
  shows "FindFlips state player r c abort_callback =
     Some (\<not> (\<exists>r' c'. flipped (\<lambda>x. x \<noteq> 0) (\<lambda>x. sint x = player) (s_fields state) r c r' c'), state)"
  by (simp only: FindFlips_def FindFlips_dirs_abort [OF assms subset_refl] some_flip_iff [OF assms])

lemma FindFlips_flip_cells:
  assumes "grid (s_fields state)" "ValidCoords r c"
  shows "\<exists>state'. FindFlips state player r c flip_callback = Some (True, state')
     \<and> moves_played state' = moves_played state \<and> grid (s_fields state')
     \<and> (\<forall>r' c'. ValidCoords r' c' \<longrightarrow> cell (s_fields state') r' c' =
           (if flipped (\<lambda>x. x \<noteq> 0) (\<lambda>x. sint x = player) (s_fields state) r c r' c'
            then cell (s_fields state) r' c' XOR 3 else cell (s_fields state) r' c'))"
  using flip_all_cells [OF assms, where occ = "\<lambda>x. x \<noteq> 0" and mine = "\<lambda>x. sint x = player"
      and tog = "\<lambda>x. x XOR 3"]
    FindFlips_flip_eq [OF assms(2), of state player]
  by simp

subsection \<open>The flipping rule\<close>

text \<open>
  Claim C2, as amended. For every 8 by 8 board, mover and cell \<open>(r, c)\<close> of the board, in
  each of the eight directions the scan runs over the run of occupied cells that starts
  next to \<open>(r, c)\<close>, whatever their colour, up to the first empty cell or the edge. A cell
  is flipped exactly when it lies strictly between \<open>(r, c)\<close> and an own disc of that run
  (\<open>flipped\<close>): every such cell changes sides, own discs included, and no other cell
  changes. \<^verbatim>\<open>DoFlips\<close> and \<^verbatim>\<open>FindFlips\<close> with the flipping callback do this to the board;
  \<^verbatim>\<open>HasFlips\<close> and \<^verbatim>\<open>FindFlips\<close> with the aborting callback tell whether there is such a
  cell (\<^verbatim>\<open>FindFlips\<close> returns \<open>False\<close> when there is).
\<close>

theorem flips_between_origin_and_own_disc:
  "(grid flds \<and> ValidCoords r c \<longrightarrow>
      (\<exists>flds'. DoFlips flds p r c = Some flds' \<and> grid flds'
         \<and> (\<forall>r' c'. ValidCoords r' c' \<longrightarrow> cell flds' r' c' =
               (if flipped (\<lambda>x. x \<noteq> NONE) (\<lambda>x. x = p) flds r c r' c' then Other (cell flds r' c')
                else cell flds r' c')))
      \<and> HasFlips flds p r c = Some (\<exists>r' c'. flipped (\<lambda>x. x \<noteq> NONE) (\<lambda>x. x = p) flds r c r' c'))
   \<and> (grid (s_fields state) \<and> ValidCoords r c \<longrightarrow>
      (\<exists>state'. FindFlips state player r c flip_callback = Some (True, state')
         \<and> moves_played state' = moves_played state \<and> grid (s_fields state')
         \<and> (\<forall>r' c'. ValidCoords r' c' \<longrightarrow> cell (s_fields state') r' c' =
               (if flipped (\<lambda>x. x \<noteq> 0) (\<lambda>x. sint x = player) (s_fields state) r c r' c'
                then cell (s_fields state) r' c' XOR 3 else cell (s_fields state) r' c')))
      \<and> FindFlips state player r c abort_callback =
          Some (\<not> (\<exists>r' c'. flipped (\<lambda>x. x \<noteq> 0) (\<lambda>x. sint x = player) (s_fields state) r c r' c'),
                state))"
proof (intro conjI impI)
  assume a: "grid flds \<and> ValidCoords r c"
  then show "\<exists>flds'. DoFlips flds p r c = Some flds' \<and> grid flds'
         \<and> (\<forall>r' c'. ValidCoords r' c' \<longrightarrow> cell flds' r' c' =
               (if flipped (\<lambda>x. x \<noteq> NONE) (\<lambda>x. x = p) flds r c r' c' then Other (cell flds r' c')
                else cell flds r' c'))"
    by (intro DoFlips_cells) simp_all
  from a show "HasFlips flds p r c = Some (\<exists>r' c'. flipped (\<lambda>x. x \<noteq> NONE) (\<lambda>x. x = p) flds r c r' c')"
    by (intro HasFlips_eq) simp
next
  assume a: "grid (s_fields state) \<and> ValidCoords r c"
  then show "\<exists>state'. FindFlips state player r c flip_callback = Some (True, state')
         \<and> moves_played state' = moves_played state \<and> grid (s_fields state')
         \<and> (\<forall>r' c'. ValidCoords r' c' \<longrightarrow> cell (s_fields state') r' c' =
               (if flipped (\<lambda>x. x \<noteq> 0) (\<lambda>x. sint x = player) (s_fields state) r c r' c'
                then cell (s_fields state) r' c' XOR 3 else cell (s_fields state) r' c'))"
    by (intro FindFlips_flip_cells) simp_all
  from a show "FindFlips state player r c abort_callback =
          Some (\<not> (\<exists>r' c'. flipped (\<lambda>x. x \<noteq> 0) (\<lambda>x. sint x = player) (s_fields state) r c r' c'),
                state)"
    by (intro FindFlips_abort_eq) simp
qed

text \<open>On the initial board, a white disc at C3 flips the white disc at D4 (between C3 and
  the white disc at E5), in both programs.\<close>

theorem flips_between_origin_and_own_disc_witness:
  "grid (b_fields InitialBoard) \<and> grid (s_fields InitialState) \<and> ValidCoords 2 2
   \<and> flipped (\<lambda>x. x \<noteq> NONE) (\<lambda>x. x = WHITE) (b_fields InitialBoard) 2 2 3 3
   \<and> HasFlips (b_fields InitialBoard) WHITE 2 2 = Some True
   \<and> (\<exists>flds'. DoFlips (b_fields InitialBoard) WHITE 2 2 = Some flds' \<and> cell flds' 3 3 = BLACK
         \<and> cell flds' 4 4 = WHITE)
   \<and> flipped (\<lambda>x. x \<noteq> 0) (\<lambda>x. sint x = 1) (s_fields InitialState) 2 2 3 3
   \<and> FindFlips InitialState 1 2 2 abort_callback = Some (False, InitialState)
   \<and> (\<exists>state'. FindFlips InitialState 1 2 2 flip_callback = Some (True, state')
         \<and> cell (s_fields state') 3 3 = 2 \<and> cell (s_fields state') 4 4 = 1)"
proof -
  have g: "grid (b_fields InitialBoard)" "grid (s_fields InitialState)" by code_simp+
  have v: "ValidCoords 2 2" "ValidCoords 3 3" "ValidCoords 4 4" by code_simp+
  have f: "flipped (\<lambda>x. x \<noteq> NONE) (\<lambda>x. x = WHITE) (b_fields InitialBoard) 2 2 3 3"
    "\<not> flipped (\<lambda>x. x \<noteq> NONE) (\<lambda>x. x = WHITE) (b_fields InitialBoard) 2 2 4 4"
    "flipped (\<lambda>x. x \<noteq> 0) (\<lambda>x. sint x = 1) (s_fields InitialState) 2 2 3 3"
    "\<not> flipped (\<lambda>x. x \<noteq> 0) (\<lambda>x. sint x = 1) (s_fields InitialState) 2 2 4 4"
    by code_simp+
  have c: "cell (b_fields InitialBoard) 3 3 = WHITE" "cell (b_fields InitialBoard) 4 4 = WHITE"
    "cell (s_fields InitialState) 3 3 = 1" "cell (s_fields InitialState) 4 4 = 1"
    by code_simp+
  note t = flips_between_origin_and_own_disc
    [of "b_fields InitialBoard" 2 2 WHITE InitialState 1]
  from t g v(1) obtain flds' where d: "DoFlips (b_fields InitialBoard) WHITE 2 2 = Some flds'"
    and dc: "\<And>r' c'. ValidCoords r' c' \<Longrightarrow> cell flds' r' c' =
               (if flipped (\<lambda>x. x \<noteq> NONE) (\<lambda>x. x = WHITE) (b_fields InitialBoard) 2 2 r' c'
                then Other (cell (b_fields InitialBoard) r' c') else cell (b_fields InitialBoard) r' c')"
    by blast
  from t g v(1) have h: "HasFlips (b_fields InitialBoard) WHITE 2 2 =
      Some (\<exists>r' c'. flipped (\<lambda>x. x \<noteq> NONE) (\<lambda>x. x = WHITE) (b_fields InitialBoard) 2 2 r' c')"
    by blast
  from t g v(1) obtain state' where e: "FindFlips InitialState 1 2 2 flip_callback = Some (True, state')"
    and ec: "\<And>r' c'. ValidCoords r' c' \<Longrightarrow> cell (s_fields state') r' c' =
               (if flipped (\<lambda>x. x \<noteq> 0) (\<lambda>x. sint x = 1) (s_fields InitialState) 2 2 r' c'
                then cell (s_fields InitialState) r' c' XOR 3 else cell (s_fields InitialState) r' c')"
    by blast
  from t g v(1) have a: "FindFlips InitialState 1 2 2 abort_callback =
      Some (\<not> (\<exists>r' c'. flipped (\<lambda>x. x \<noteq> 0) (\<lambda>x. sint x = 1) (s_fields InitialState) 2 2 r' c'),
            InitialState)"
    by blast
  have 1: "HasFlips (b_fields InitialBoard) WHITE 2 2 = Some True"
    using h f(1) by auto
  have 2: "FindFlips InitialState 1 2 2 abort_callback = Some (False, InitialState)"
    using a f(3) by auto
  have 3: "cell flds' 3 3 = BLACK" "cell flds' 4 4 = WHITE"
    using dc [OF v(2)] dc [OF v(3)] f(1,2) c(1,2) by simp_all
  have 4: "cell (s_fields state') 3 3 = 2" "cell (s_fields state') 4 4 = 1"
    using ec [OF v(2)] ec [OF v(3)] f(3,4) c(3,4) by simp_all
  from g v(1) f(1,3) 1 2 d 3 e 4 show ?thesis by blast
qed

text \<open>Claim C2 as it is worded fails there: D4 is an own disc, so the run of opposing discs
  from C3 towards E5 is empty and the claim has nothing flipped in that direction; both
  programs flip D4.\<close>

theorem flips_only_opposing_run_counterexample:
  "cell (b_fields InitialBoard) 3 3 = WHITE
   \<and> map_option (\<lambda>flds'. cell flds' 3 3) (DoFlips (b_fields InitialBoard) WHITE 2 2) = Some BLACK
   \<and> \<not> claimed_flipped (\<lambda>x. x \<noteq> NONE) (\<lambda>x. x = WHITE) (b_fields InitialBoard) 2 2 3 3
   \<and> cell (s_fields InitialState) 3 3 = 1
   \<and> map_option (\<lambda>res. cell (s_fields (snd res)) 3 3) (FindFlips InitialState 1 2 2 flip_callback) = Some 2
   \<and> \<not> claimed_flipped (\<lambda>x. x \<noteq> 0) (\<lambda>x. sint x = 1) (s_fields InitialState) 2 2 3 3"
  by (intro conjI; code_simp)

section \<open>Legal moves\<close>

lemma set_all_cells: "set all_cells = {(r, c). ValidCoords r c}"
proof -
  have "(a, b) \<in> set all_cells \<longleftrightarrow> ValidCoords a b" for a b
    by (auto simp: all_cells_def ValidCoords_iff image_iff)
  then show ?thesis by auto
qed

lemma distinct_all_cells: "distinct all_cells"
  by code_simp

lemma length_all_cells: "length all_cells = 64"
  by code_simp

lemma flipping_iff:
  assumes "ValidCoords r c"
  shows "flipping occ mine fs r c \<longleftrightarrow> (\<exists>r' c'. flipped occ mine fs r c r' c')"
  using flipped_valid [OF assms, of occ mine fs]
  by (auto simp: flipping_def list_ex_iff set_all_cells)

lemma neighbor_occupied_iff:
  "neighbor_occupied occ fs r c \<longleftrightarrow>
     (\<exists>r2 c2. ValidCoords r2 c2 \<and> (r2 \<noteq> r \<or> c2 \<noteq> c) \<and> \<bar>r2 - r\<bar> \<le> 1 \<and> \<bar>c2 - c\<bar> \<le> 1
        \<and> occ (cell fs r2 c2))"
  by (auto simp: neighbor_occupied_def list_ex_iff set_all_cells)

lemma HasOccupiedNeighbor_eq:
  "HasOccupiedNeighbor state r c = neighbor_occupied (\<lambda>x. x \<noteq> 0) (s_fields state) r c"
proof -
  have "HasOccupiedNeighbor state r c \<longleftrightarrow>
     (\<exists>r2 c2. r - 1 \<le> r2 \<and> r2 \<le> r + 1 \<and> c - 1 \<le> c2 \<and> c2 \<le> c + 1
        \<and> (r2 \<noteq> r \<or> c2 \<noteq> c) \<and> ValidCoords r2 c2 \<and> cell (s_fields state) r2 c2 \<noteq> 0)"
    by (auto simp: HasOccupiedNeighbor_def list_ex_iff Bex_def)
  also have "\<dots> \<longleftrightarrow> neighbor_occupied (\<lambda>x. x \<noteq> 0) (s_fields state) r c"
    unfolding neighbor_occupied_iff
    by (intro arg_cong [where f = Ex] ext) (auto simp: abs_le_iff)
  finally show ?thesis .
qed

lemma HasOccupiedNeighbor_player_eq:
  assumes "ValidCoords r c" "cell flds r c = NONE"
  shows "HasOccupiedNeighbor_player flds r c = Some (neighbor_occupied (\<lambda>x. x \<noteq> NONE) flds r c)"
proof -
  let ?min_r = "if r > 0 then r - 1 else 0" and ?max_r = "if r < H - 1 then r + 1 else H - 1"
  let ?min_c = "if c > 0 then c - 1 else 0" and ?max_c = "if c < W - 1 then c + 1 else W - 1"
  have "list_ex (\<lambda>r2. list_ex (\<lambda>c2. cell flds r2 c2 \<noteq> NONE) [?min_c .. ?max_c]) [?min_r .. ?max_r]
     \<longleftrightarrow> (\<exists>r2 c2. ?min_r \<le> r2 \<and> r2 \<le> ?max_r \<and> ?min_c \<le> c2 \<and> c2 \<le> ?max_c
            \<and> cell flds r2 c2 \<noteq> NONE)"
    by (auto simp: list_ex_iff Bex_def)
  also have "\<dots> \<longleftrightarrow> neighbor_occupied (\<lambda>x. x \<noteq> NONE) flds r c"
    unfolding neighbor_occupied_iff
  proof (intro iffI; elim exE conjE)
    fix r2 c2
    assume a: "?min_r \<le> r2" "r2 \<le> ?max_r" "?min_c \<le> c2" "c2 \<le> ?max_c" "cell flds r2 c2 \<noteq> NONE"
    from a(5) assms(2) have "r2 \<noteq> r \<or> c2 \<noteq> c" by auto
    moreover from a(1-4) assms(1) have "ValidCoords r2 c2" "\<bar>r2 - r\<bar> \<le> 1" "\<bar>c2 - c\<bar> \<le> 1"
      by (auto simp: ValidCoords_iff H_def W_def split: if_splits)
    ultimately show "\<exists>r2 c2. ValidCoords r2 c2 \<and> (r2 \<noteq> r \<or> c2 \<noteq> c) \<and> \<bar>r2 - r\<bar> \<le> 1
        \<and> \<bar>c2 - c\<bar> \<le> 1 \<and> cell flds r2 c2 \<noteq> NONE"
      using a(5) by blast
  next
    fix r2 c2
    assume a: "ValidCoords r2 c2" "\<bar>r2 - r\<bar> \<le> 1" "\<bar>c2 - c\<bar> \<le> 1" "cell flds r2 c2 \<noteq> NONE"
    then have "?min_r \<le> r2" "r2 \<le> ?max_r" "?min_c \<le> c2" "c2 \<le> ?max_c"
      by (auto simp: ValidCoords_iff H_def W_def)
    with a(4) show "\<exists>r2 c2. ?min_r \<le> r2 \<and> r2 \<le> ?max_r \<and> ?min_c \<le> c2 \<and> c2 \<le> ?max_c
            \<and> cell flds r2 c2 \<noteq> NONE"
      by blast
  qed
  finally show ?thesis
    using assms by (simp add: HasOccupiedNeighbor_player_def Let_def ValidCoords_iff H_def W_def)
qed

lemma mk_move_simps [simp]: "row (mk_move rc) = fst rc" "col (mk_move rc) = snd rc"
  by (simp_all add: mk_move_def)

lemma mk_move_inj: "inj mk_move"
  by (auto simp: inj_on_def mk_move_def)

lemma mk_move_lambda: "(\<lambda>(r, c). \<lparr>row = r, col = c\<rparr>) = mk_move"
  by (auto simp: mk_move_def fun_eq_iff)

subsection \<open>The arbiter's list of valid moves\<close>

lemma ListValidMoves_all_eq:
  "ListValidMoves_all state =
     map mk_move (filter (\<lambda>(r, c). candidate (\<lambda>x. x \<noteq> 0) (s_fields state) r c) all_cells)"
proof -
  have "filter (\<lambda>(r, c). cell (s_fields state) r c = 0 \<and> HasOccupiedNeighbor state r c) all_cells
      = filter (\<lambda>(r, c). candidate (\<lambda>x. x \<noteq> 0) (s_fields state) r c) all_cells"
    by (rule filter_cong [OF refl])
       (auto simp: candidate_def HasOccupiedNeighbor_eq set_all_cells)
  then show ?thesis by (simp add: ListValidMoves_all_def mk_move_lambda)
qed

lemma ListValidMoves_flipping_eq:
  assumes "\<And>m. m \<in> set ms \<Longrightarrow> ValidCoords (row m) (col m)"
  shows "ListValidMoves_flipping state player ms =
     Some (filter (\<lambda>m. flipping (\<lambda>x. x \<noteq> 0) (\<lambda>x. sint x = player) (s_fields state) (row m) (col m)) ms)"
  using assms
proof (induction ms)
  case Nil
  then show ?case by simp
next
  case (Cons m ms)
  have v: "ValidCoords (row m) (col m)" using Cons.prems by simp
  have IH: "ListValidMoves_flipping state player ms =
     Some (filter (\<lambda>m. flipping (\<lambda>x. x \<noteq> 0) (\<lambda>x. sint x = player) (s_fields state) (row m) (col m)) ms)"
    using Cons.prems by (intro Cons.IH) simp
  show ?case
    by (simp add: IH FindFlips_abort_eq [OF v]
          flipping_iff [OF v, of "\<lambda>x. x \<noteq> 0" "\<lambda>x. sint x = player" "s_fields state"])
qed

lemma ListValidMoves_eq:
  "ListValidMoves state =
     Some (map mk_move (legal_cells (\<lambda>x. x \<noteq> 0) (\<lambda>x. sint x = (moves_played state AND 1) + 1)
                          (s_fields state)))"
proof -
  let ?cands = "filter (\<lambda>(r, c). candidate (\<lambda>x. x \<noteq> 0) (s_fields state) r c) all_cells"
  let ?pl = "(moves_played state AND 1) + 1"
  have v: "ValidCoords (row m) (col m)" if "m \<in> set (map mk_move ?cands)" for m
    using that by (auto simp: candidate_def)
  have fl: "filter (\<lambda>m. flipping (\<lambda>x. x \<noteq> 0) (\<lambda>x. sint x = ?pl) (s_fields state) (row m) (col m))
       (map mk_move ?cands)
     = map mk_move (filter (\<lambda>(r, c). flipping (\<lambda>x. x \<noteq> 0) (\<lambda>x. sint x = ?pl) (s_fields state) r c) ?cands)"
    by (simp add: filter_map comp_def case_prod_beta)
  have a: "ListValidMoves_flipping state ?pl (map mk_move ?cands) =
      Some (map mk_move (filter (\<lambda>(r, c). flipping (\<lambda>x. x \<noteq> 0) (\<lambda>x. sint x = ?pl) (s_fields state) r c) ?cands))"
    using ListValidMoves_flipping_eq [of "map mk_move ?cands" state ?pl, OF v] fl by simp
  show ?thesis
    by (simp only: ListValidMoves_def ListValidMoves_all_eq Let_def a legal_cells_def
          option.case map_is_Nil_conv if_distrib [of "map mk_move"] cong: if_cong)
qed

subsection \<open>What the list of legal cells holds\<close>

lemma legal_cells_set:
  "set (legal_cells occ mine fs) =
     (if \<exists>r c. candidate occ fs r c \<and> flipping occ mine fs r c
      then {(r, c). candidate occ fs r c \<and> flipping occ mine fs r c}
      else {(r, c). candidate occ fs r c})"
proof -
  let ?cands = "filter (\<lambda>(r, c). candidate occ fs r c) all_cells"
  let ?fl = "filter (\<lambda>(r, c). flipping occ mine fs r c) ?cands"
  have c: "set ?cands = {(r, c). candidate occ fs r c}"
    by (auto simp: set_all_cells candidate_def)
  then have f: "set ?fl = {(r, c). candidate occ fs r c \<and> flipping occ mine fs r c}" by auto
  have "?fl = [] \<longleftrightarrow> \<not> (\<exists>r c. candidate occ fs r c \<and> flipping occ mine fs r c)"
    using f by (metis (mono_tags, lifting) Collect_empty_eq case_prodI set_empty2 case_prodE)
  note e = this
  show ?thesis
  proof (cases "\<exists>r c. candidate occ fs r c \<and> flipping occ mine fs r c")
    case True
    with e have "?fl \<noteq> []" by simp
    then have "legal_cells occ mine fs = ?fl"
      unfolding legal_cells_def Let_def by (simp only: if_False)
    with f True show ?thesis by (simp only: if_True)
  next
    case False
    with e have "?fl = []" by simp
    then have "legal_cells occ mine fs = ?cands"
      unfolding legal_cells_def Let_def by (simp only: refl if_True)
    with c False show ?thesis by (simp only: if_False)
  qed
qed

lemma legal_cells_distinct: "distinct (legal_cells occ mine fs)"
  by (simp add: legal_cells_def Let_def distinct_all_cells)

subsection \<open>At most sixty candidates\<close>

lemma length_filter_disjoint:
  assumes "\<And>x. x \<in> set xs \<Longrightarrow> P x \<Longrightarrow> \<not> Q x"
  shows "length (filter P xs) + length (filter Q xs) \<le> length xs"
  using assms by (induction xs) auto

lemma candidates_le_60:
  "length (filter (\<lambda>(r, c). candidate occ fs r c) all_cells) \<le> 60"
proof -
  let ?C = "filter (\<lambda>(r, c). candidate occ fs r c) all_cells"
  let ?O = "filter (\<lambda>(r, c). occ (cell fs r c)) all_cells"
  have "length ?C + length ?O \<le> length all_cells"
    by (rule length_filter_disjoint) (auto simp: candidate_def)
  then have sum: "length ?C + length ?O \<le> 64" by (simp add: length_all_cells)
  show ?thesis
  proof (cases "4 \<le> length ?O")
    case True
    with sum show ?thesis by simp
  next
    case False
    let ?nb = "\<lambda>rc :: int \<times> int. {fst rc - 1 .. fst rc + 1} \<times> {snd rc - 1 .. snd rc + 1}"
    have sub: "set ?C \<subseteq> (\<Union>rc\<in>set ?O. ?nb rc)"
    proof
      fix x assume "x \<in> set ?C"
      then obtain r c where x: "x = (r, c)" and c: "candidate occ fs r c" by auto
      from c obtain r2 c2 where n: "ValidCoords r2 c2" "\<bar>r2 - r\<bar> \<le> 1" "\<bar>c2 - c\<bar> \<le> 1" "occ (cell fs r2 c2)"
        by (auto simp: candidate_def neighbor_occupied_iff)
      from n(1,4) have "(r2, c2) \<in> set ?O" by (simp add: set_all_cells)
      moreover from n(2,3) have "(r, c) \<in> ?nb (r2, c2)" by auto
      ultimately show "x \<in> (\<Union>rc\<in>set ?O. ?nb rc)" using x by blast
    qed
    have "distinct ?C" by (intro distinct_filter distinct_all_cells)
    then have "length ?C = card (set ?C)" by (rule distinct_card [symmetric])
    also have "\<dots> \<le> card (\<Union>rc\<in>set ?O. ?nb rc)"
      by (intro card_mono sub) simp
    also have "\<dots> \<le> (\<Sum>rc\<in>set ?O. card (?nb rc))"
      by (intro card_UN_le) simp
    also have "\<dots> = (\<Sum>rc\<in>set ?O. 9)"
      by (intro sum.cong refl) simp
    also have "\<dots> = 9 * card (set ?O)" by simp
    also have "\<dots> \<le> 9 * length ?O" by (intro mult_le_mono2 card_length)
    also have "\<dots> \<le> 60" using False by simp
    finally show ?thesis .
  qed
qed

subsection \<open>The player's list of moves\<close>

lemma ListMoves_collect_fold:
  assumes "\<And>x. x \<in> set xs \<Longrightarrow> ValidCoords (fst x) (snd x)"
    and "t + length (filter (\<lambda>(r, c). candidate (\<lambda>x. x \<noteq> NONE) flds r c) xs) \<le> length ms"
  shows "fold (ListMoves_collect flds) xs (Some (ms, t)) =
     Some (take t ms @ map mk_move (filter (\<lambda>(r, c). candidate (\<lambda>x. x \<noteq> NONE) flds r c) xs)
             @ drop (t + length (filter (\<lambda>(r, c). candidate (\<lambda>x. x \<noteq> NONE) flds r c) xs)) ms,
           t + length (filter (\<lambda>(r, c). candidate (\<lambda>x. x \<noteq> NONE) flds r c) xs))"
  using assms
proof (induction xs arbitrary: ms t)
  case Nil
  then show ?case by simp
next
  case (Cons x xs)
  let ?cand = "\<lambda>(r, c). candidate (\<lambda>x. x \<noteq> NONE) flds r c"
  obtain r c where x: "x = (r, c)" by (cases x)
  have v: "ValidCoords r c" using Cons.prems(1) [of x] x by simp
  have vs: "\<And>y. y \<in> set xs \<Longrightarrow> ValidCoords (fst y) (snd y)" using Cons.prems(1) by simp
  show ?case
  proof (cases "?cand x")
    case True
    then have e: "cell flds r c = NONE" and nb: "neighbor_occupied (\<lambda>x. x \<noteq> NONE) flds r c"
      using x by (simp_all add: candidate_def)
    from Cons.prems(2) True have t: "t < length ms"
      and le: "Suc t + length (filter ?cand xs) \<le> length (ms[t := mk_move x])" by simp_all
    have step: "ListMoves_collect flds x (Some (ms, t)) = Some (ms[t := mk_move x], Suc t)"
      using e nb t x by (simp add: ListMoves_collect_def HasOccupiedNeighbor_player_eq [OF v e] mk_move_def)
    have "take (Suc t) (ms[t := mk_move x]) = take t ms @ [mk_move x]"
      using t by (simp add: take_Suc_conv_app_nth)
    moreover have "drop (Suc t + k) (ms[t := mk_move x]) = drop (Suc t + k) ms" for k
      by simp
    ultimately show ?thesis
      using True Cons.IH [OF vs le] by (simp add: step)
  next
    case False
    have step: "ListMoves_collect flds x (Some (ms, t)) = Some (ms, t)"
    proof (cases "cell flds r c = NONE")
      case e: True
      with False x v have "\<not> neighbor_occupied (\<lambda>x. x \<noteq> NONE) flds r c" by (simp add: candidate_def)
      with e x show ?thesis
        by (simp add: ListMoves_collect_def HasOccupiedNeighbor_player_eq [OF v e])
    next
      case False
      with x show ?thesis by (simp add: ListMoves_collect_def)
    qed
    from Cons.prems(2) False have le: "t + length (filter ?cand xs) \<le> length ms" by simp
    show ?thesis using False Cons.IH [OF vs le] by (simp add: step)
  qed
qed

text \<open>The second loop, after its first \<open>n\<close> iterations on the array \<open>ms\<close>: the flipping
  moves among the first \<open>n\<close> entries are at the front, and the entries from \<open>n\<close> on are
  untouched.\<close>

lemma ListMoves_compact_fold:
  assumes "n \<le> length ms"
    and "\<And>j. j < n \<Longrightarrow> ValidCoords (row (ms ! j)) (col (ms ! j))"
  shows "\<exists>ms' f. fold (ListMoves_compact flds p) [0 ..< n] (Some (ms, 0)) = Some (ms', f)
     \<and> f \<le> n \<and> length ms' = length ms
     \<and> take f ms' = filter (\<lambda>m. flipping (\<lambda>x. x \<noteq> NONE) (\<lambda>x. x = p) flds (row m) (col m)) (take n ms)
     \<and> (\<forall>j\<ge>n. ms' ! j = ms ! j) \<and> (f = 0 \<longrightarrow> ms' = ms)"
  using assms
proof (induction n)
  case 0
  then show ?case by simp
next
  case (Suc n)
  let ?hf = "\<lambda>m. flipping (\<lambda>x. x \<noteq> NONE) (\<lambda>x. x = p) flds (row m) (col m)"
  from Suc.prems have n: "n < length ms" by simp
  have "n \<le> length ms" using Suc.prems(1) by simp
  moreover have "\<And>j. j < n \<Longrightarrow> ValidCoords (row (ms ! j)) (col (ms ! j))"
    using Suc.prems(2) by simp
  ultimately have "\<exists>ms' f. fold (ListMoves_compact flds p) [0 ..< n] (Some (ms, 0)) = Some (ms', f)
     \<and> f \<le> n \<and> length ms' = length ms \<and> take f ms' = filter ?hf (take n ms)
     \<and> (\<forall>j\<ge>n. ms' ! j = ms ! j) \<and> (f = 0 \<longrightarrow> ms' = ms)"
    by (rule Suc.IH)
  then obtain ms' f where
    fo: "fold (ListMoves_compact flds p) [0 ..< n] (Some (ms, 0)) = Some (ms', f)"
    and f: "f \<le> n" and len: "length ms' = length ms"
    and tk: "take f ms' = filter ?hf (take n ms)"
    and rest: "\<forall>j\<ge>n. ms' ! j = ms ! j" and z: "f = 0 \<longrightarrow> ms' = ms"
    by blast
  from rest have cur: "ms' ! n = ms ! n" by simp
  have v: "ValidCoords (row (ms ! n)) (col (ms ! n))" using Suc.prems(2) by simp
  have hf: "HasFlips flds p (row (ms ! n)) (col (ms ! n)) = Some (?hf (ms ! n))"
    by (simp add: HasFlips_eq [OF v] flipping_iff [OF v])
  have tn: "take (Suc n) ms = take n ms @ [ms ! n]"
    using n by (simp add: take_Suc_conv_app_nth)
  show ?case
  proof (cases "?hf (ms ! n)")
    case True
    let ?ms2 = "ms'[f := ms ! n]"
    have st: "fold (ListMoves_compact flds p) [0 ..< Suc n] (Some (ms, 0)) = Some (?ms2, Suc f)"
      using fo hf True cur by (simp add: ListMoves_compact_def)
    have fl: "f < length ms'" using f n len by simp
    have "take (Suc f) ?ms2 = take f ms' @ [ms ! n]"
      using fl by (simp add: take_Suc_conv_app_nth)
    then have "take (Suc f) ?ms2 = filter ?hf (take (Suc n) ms)"
      using tk tn True by simp
    moreover have "\<forall>j\<ge>Suc n. ?ms2 ! j = ms ! j"
      using rest f by (auto simp: nth_list_update)
    ultimately show ?thesis using st f len by auto
  next
    case False
    have st: "fold (ListMoves_compact flds p) [0 ..< Suc n] (Some (ms, 0)) = Some (ms', f)"
      using fo hf False cur by (simp add: ListMoves_compact_def)
    have "take f ms' = filter ?hf (take (Suc n) ms)"
      using tk tn False by simp
    with st f len rest z show ?thesis by auto
  qed
qed

lemma ListMoves_eq:
  assumes "length moves = MAX_MOVES_player"
  shows "\<exists>moves' n. ListMoves board moves = Some (moves', n) \<and> length moves' = length moves
     \<and> n \<le> length moves'
     \<and> take n moves' = map mk_move (legal_cells (\<lambda>x. x \<noteq> NONE) (\<lambda>x. x = next_player board)
                                       (b_fields board))"
proof -
  let ?flds = "b_fields board" and ?p = "next_player board"
  let ?cand = "\<lambda>(r, c). candidate (\<lambda>x. x \<noteq> NONE) ?flds r c"
  let ?cands = "filter ?cand all_cells"
  let ?hf = "\<lambda>m. flipping (\<lambda>x. x \<noteq> NONE) (\<lambda>x. x = ?p) ?flds (row m) (col m)"
  let ?total = "length ?cands"
  let ?ms1 = "map mk_move ?cands @ drop ?total moves"
  have le: "?total \<le> length moves"
    using candidates_le_60 [of "\<lambda>x. x \<noteq> NONE" ?flds] assms by (simp add: MAX_MOVES_player_def)
  have c1: "fold (ListMoves_collect ?flds) all_cells (Some (moves, 0)) = Some (?ms1, ?total)"
    using ListMoves_collect_fold [of all_cells 0 ?flds moves] le
    by (simp add: set_all_cells case_prod_beta)
  have len1: "length ?ms1 = length moves" using le by simp
  have tk1: "take ?total ?ms1 = map mk_move ?cands" by simp
  have v1: "ValidCoords (row (?ms1 ! j)) (col (?ms1 ! j))" if "j < ?total" for j
  proof -
    from that have "?ms1 ! j = mk_move (?cands ! j)" by (simp add: nth_append)
    moreover from that have "?cands ! j \<in> set ?cands" by (intro nth_mem)
    ultimately show ?thesis by (auto simp: candidate_def)
  qed
  from ListMoves_compact_fold [of ?total ?ms1 ?flds ?p, OF _ v1] le len1
  obtain ms2 f where
    c2: "fold (ListMoves_compact ?flds ?p) [0 ..< ?total] (Some (?ms1, 0)) = Some (ms2, f)"
    and f: "f \<le> ?total" and len2: "length ms2 = length ?ms1"
    and tk2: "take f ms2 = filter ?hf (take ?total ?ms1)"
    and z: "f = 0 \<longrightarrow> ms2 = ?ms1"
    by auto
  have res: "ListMoves board moves = Some (ms2, if f > 0 then f else ?total)"
    by (simp add: ListMoves_def c1 c2)
  have fm: "filter ?hf (map mk_move ?cands)
       = map mk_move (filter (\<lambda>(r, c). flipping (\<lambda>x. x \<noteq> NONE) (\<lambda>x. x = ?p) ?flds r c) ?cands)"
    by (simp add: filter_map comp_def case_prod_beta)
  let ?fl = "filter (\<lambda>(r, c). flipping (\<lambda>x. x \<noteq> NONE) (\<lambda>x. x = ?p) ?flds r c) ?cands"
  have tk2': "take f ms2 = map mk_move ?fl" using tk2 tk1 fm by simp
  then have lf: "f = length ?fl" using f len2 len1 le
    by (metis length_map length_take min.absorb2 order_trans)
  have lc: "legal_cells (\<lambda>x. x \<noteq> NONE) (\<lambda>x. x = ?p) ?flds = (if ?fl = [] then ?cands else ?fl)"
    by (simp only: legal_cells_def Let_def)
  show ?thesis
  proof (cases "f > 0")
    case True
    with lf have "?fl \<noteq> []" by auto
    with lc have "legal_cells (\<lambda>x. x \<noteq> NONE) (\<lambda>x. x = ?p) ?flds = ?fl" by (simp only: if_False)
    with True res tk2' f le len2 len1 show ?thesis by auto
  next
    case False
    with lf have e: "?fl = []" by auto
    with lc have "legal_cells (\<lambda>x. x \<noteq> NONE) (\<lambda>x. x = ?p) ?flds = ?cands" by (simp only: refl if_True)
    moreover from False z have "ms2 = ?ms1" by simp
    ultimately show ?thesis using False res tk1 le len1 by auto
  qed
qed

lemma set_map_mk_move: "set (map mk_move xs) = {m. (row m, col m) \<in> set xs}"
proof -
  have "m \<in> mk_move ` set xs \<longleftrightarrow> (row m, col m) \<in> set xs" for m
  proof
    assume "m \<in> mk_move ` set xs"
    then show "(row m, col m) \<in> set xs" by auto
  next
    assume a: "(row m, col m) \<in> set xs"
    have "m = mk_move (row m, col m)" by (cases m) (simp add: mk_move_def)
    with a show "m \<in> mk_move ` set xs" by (metis imageI)
  qed
  then show ?thesis by auto
qed

lemma legal_moves_set:
  "set (map mk_move (legal_cells occ mine fs)) =
     (if \<exists>r c. candidate occ fs r c \<and> flipping occ mine fs r c
      then {m. candidate occ fs (row m) (col m) \<and> flipping occ mine fs (row m) (col m)}
      else {m. candidate occ fs (row m) (col m)})"
proof (cases "\<exists>r c. candidate occ fs r c \<and> flipping occ mine fs r c")
  case True
  then have "set (legal_cells occ mine fs) = {(r, c). candidate occ fs r c \<and> flipping occ mine fs r c}"
    by (simp only: legal_cells_set if_True)
  then have "set (map mk_move (legal_cells occ mine fs)) =
      {m. candidate occ fs (row m) (col m) \<and> flipping occ mine fs (row m) (col m)}"
    unfolding set_map_mk_move by simp
  with True show ?thesis by (simp only: if_True)
next
  case False
  then have "set (legal_cells occ mine fs) = {(r, c). candidate occ fs r c}"
    by (simp only: legal_cells_set if_False)
  then have "set (map mk_move (legal_cells occ mine fs)) = {m. candidate occ fs (row m) (col m)}"
    unfolding set_map_mk_move by simp
  with False show ?thesis by (simp only: if_False)
qed

lemma legal_moves_distinct: "distinct (map mk_move (legal_cells occ mine fs))"
  by (simp add: distinct_map legal_cells_distinct inj_on_subset [OF mk_move_inj])

lemma legal_moves_candidates:
  "m \<in> set (map mk_move (legal_cells occ mine fs)) \<Longrightarrow> candidate occ fs (row m) (col m)"
  by (simp only: legal_moves_set split: if_splits) auto

lemma some_flipping_candidate_code:
  "(\<exists>r c. candidate occ fs r c \<and> flipping occ mine fs r c)
     \<longleftrightarrow> list_ex (\<lambda>(r, c). candidate occ fs r c \<and> flipping occ mine fs r c) all_cells"
  by (auto simp: list_ex_iff set_all_cells candidate_def)

text \<open>
  Claim C1, as amended. The arbiter's \<^verbatim>\<open>ListValidMoves\<close> and the player's \<^verbatim>\<open>ListMoves\<close> (on
  an array of \<^verbatim>\<open>MAX_MOVES\<close> entries, of which it returns the number that count) return, for
  every board and mover, a list without repetitions of candidates only: empty cells of
  the board with an occupied neighbour. A candidate counts as flipping when it has a flip
  under the rule of the code (claim C2 as amended): some cell lies strictly between the
  candidate and an own disc reached over occupied cells of either colour. When some
  candidate is flipping in that sense, the moves returned are exactly the flipping
  candidates; otherwise they are exactly the candidates. \<^verbatim>\<open>ListMoves\<close> never writes past
  the end of its array.
\<close>

theorem legal_moves_flipping_candidates_or_all:
  "(grid (s_fields state) \<longrightarrow>
      (\<exists>ms. ListValidMoves state = Some ms \<and> distinct ms
         \<and> (\<forall>m\<in>set ms. candidate (\<lambda>x. x \<noteq> 0) (s_fields state) (row m) (col m))
         \<and> set ms =
             (if \<exists>r c. candidate (\<lambda>x. x \<noteq> 0) (s_fields state) r c
                    \<and> flipping (\<lambda>x. x \<noteq> 0) (\<lambda>x. sint x = (moves_played state AND 1) + 1)
                         (s_fields state) r c
              then {m. candidate (\<lambda>x. x \<noteq> 0) (s_fields state) (row m) (col m)
                    \<and> flipping (\<lambda>x. x \<noteq> 0) (\<lambda>x. sint x = (moves_played state AND 1) + 1)
                         (s_fields state) (row m) (col m)}
              else {m. candidate (\<lambda>x. x \<noteq> 0) (s_fields state) (row m) (col m)})))
   \<and> (grid (b_fields board) \<and> length moves = MAX_MOVES_player \<longrightarrow>
      (\<exists>moves' n. ListMoves board moves = Some (moves', n) \<and> n \<le> length moves'
         \<and> distinct (take n moves')
         \<and> (\<forall>m\<in>set (take n moves'). candidate (\<lambda>x. x \<noteq> NONE) (b_fields board) (row m) (col m))
         \<and> set (take n moves') =
             (if \<exists>r c. candidate (\<lambda>x. x \<noteq> NONE) (b_fields board) r c
                    \<and> flipping (\<lambda>x. x \<noteq> NONE) (\<lambda>x. x = next_player board) (b_fields board) r c
              then {m. candidate (\<lambda>x. x \<noteq> NONE) (b_fields board) (row m) (col m)
                    \<and> flipping (\<lambda>x. x \<noteq> NONE) (\<lambda>x. x = next_player board) (b_fields board)
                         (row m) (col m)}
              else {m. candidate (\<lambda>x. x \<noteq> NONE) (b_fields board) (row m) (col m)})))"
proof (intro conjI impI)
  let ?ms = "map mk_move (legal_cells (\<lambda>x. x \<noteq> 0) (\<lambda>x. sint x = (moves_played state AND 1) + 1)
                  (s_fields state))"
  have "ListValidMoves state = Some ?ms" by (rule ListValidMoves_eq)
  moreover have "distinct ?ms" by (rule legal_moves_distinct)
  moreover have "\<forall>m\<in>set ?ms. candidate (\<lambda>x. x \<noteq> 0) (s_fields state) (row m) (col m)"
    by (blast dest: legal_moves_candidates)
  ultimately show "\<exists>ms. ListValidMoves state = Some ms \<and> distinct ms
         \<and> (\<forall>m\<in>set ms. candidate (\<lambda>x. x \<noteq> 0) (s_fields state) (row m) (col m))
         \<and> set ms =
             (if \<exists>r c. candidate (\<lambda>x. x \<noteq> 0) (s_fields state) r c
                    \<and> flipping (\<lambda>x. x \<noteq> 0) (\<lambda>x. sint x = (moves_played state AND 1) + 1)
                         (s_fields state) r c
              then {m. candidate (\<lambda>x. x \<noteq> 0) (s_fields state) (row m) (col m)
                    \<and> flipping (\<lambda>x. x \<noteq> 0) (\<lambda>x. sint x = (moves_played state AND 1) + 1)
                         (s_fields state) (row m) (col m)}
              else {m. candidate (\<lambda>x. x \<noteq> 0) (s_fields state) (row m) (col m)})"
    using legal_moves_set [of "\<lambda>x. x \<noteq> 0" "\<lambda>x. sint x = (moves_played state AND 1) + 1" "s_fields state"]
    by blast
next
  assume "grid (b_fields board) \<and> length moves = MAX_MOVES_player"
  then have "length moves = MAX_MOVES_player" by simp
  from ListMoves_eq [OF this, of board] obtain moves' n where
    l: "ListMoves board moves = Some (moves', n)" "n \<le> length moves'"
    and t: "take n moves' = map mk_move (legal_cells (\<lambda>x. x \<noteq> NONE) (\<lambda>x. x = next_player board)
                                          (b_fields board))"
    by blast
  have d: "distinct (take n moves')" unfolding t by (rule legal_moves_distinct)
  have c: "\<forall>m\<in>set (take n moves'). candidate (\<lambda>x. x \<noteq> NONE) (b_fields board) (row m) (col m)"
    unfolding t by (blast dest: legal_moves_candidates)
  have s: "set (take n moves') =
             (if \<exists>r c. candidate (\<lambda>x. x \<noteq> NONE) (b_fields board) r c
                    \<and> flipping (\<lambda>x. x \<noteq> NONE) (\<lambda>x. x = next_player board) (b_fields board) r c
              then {m. candidate (\<lambda>x. x \<noteq> NONE) (b_fields board) (row m) (col m)
                    \<and> flipping (\<lambda>x. x \<noteq> NONE) (\<lambda>x. x = next_player board) (b_fields board)
                         (row m) (col m)}
              else {m. candidate (\<lambda>x. x \<noteq> NONE) (b_fields board) (row m) (col m)})"
    unfolding t by (rule legal_moves_set)
  from l d c s show "\<exists>moves' n. ListMoves board moves = Some (moves', n) \<and> n \<le> length moves'
         \<and> distinct (take n moves')
         \<and> (\<forall>m\<in>set (take n moves'). candidate (\<lambda>x. x \<noteq> NONE) (b_fields board) (row m) (col m))
         \<and> set (take n moves') =
             (if \<exists>r c. candidate (\<lambda>x. x \<noteq> NONE) (b_fields board) r c
                    \<and> flipping (\<lambda>x. x \<noteq> NONE) (\<lambda>x. x = next_player board) (b_fields board) r c
              then {m. candidate (\<lambda>x. x \<noteq> NONE) (b_fields board) (row m) (col m)
                    \<and> flipping (\<lambda>x. x \<noteq> NONE) (\<lambda>x. x = next_player board) (b_fields board)
                         (row m) (col m)}
              else {m. candidate (\<lambda>x. x \<noteq> NONE) (b_fields board) (row m) (col m)})"
    by blast
qed

theorem legal_moves_flipping_candidates_or_all_witness:
  "grid (s_fields InitialState)
   \<and> candidate (\<lambda>x. x \<noteq> 0) (s_fields InitialState) 2 3
   \<and> \<not> flipping (\<lambda>x. x \<noteq> 0) (\<lambda>x. sint x = 1) (s_fields InitialState) 2 3
   \<and> (\<exists>ms. ListValidMoves InitialState = Some ms
         \<and> \<lparr>row = 2, col = 2\<rparr> \<in> set ms \<and> \<lparr>row = 2, col = 3\<rparr> \<notin> set ms
         \<and> \<lparr>row = 0, col = 0\<rparr> \<notin> set ms)
   \<and> grid (b_fields corner_board) \<and> length fresh_moves = MAX_MOVES_player
   \<and> (\<exists>moves' n. ListMoves corner_board fresh_moves = Some (moves', n)
         \<and> \<lparr>row = 0, col = 1\<rparr> \<in> set (take n moves') \<and> \<lparr>row = 1, col = 1\<rparr> \<in> set (take n moves')
         \<and> \<lparr>row = 0, col = 0\<rparr> \<notin> set (take n moves') \<and> \<lparr>row = 2, col = 2\<rparr> \<notin> set (take n moves'))"
proof -
  let ?occ = "\<lambda>x :: 8 word. x \<noteq> 0" and ?mine = "\<lambda>x :: 8 word. sint x = (moves_played InitialState AND 1) + 1"
  let ?fs = "s_fields InitialState"
  let ?occp = "\<lambda>x. x \<noteq> NONE" and ?minep = "\<lambda>x. x = next_player corner_board"
  let ?fp = "b_fields corner_board"
  have g: "grid ?fs" "grid ?fp" by code_simp+
  have len: "length fresh_moves = MAX_MOVES_player" by code_simp
  have pl: "(moves_played InitialState AND 1) + 1 = 1" by code_simp
  have a: "candidate ?occ ?fs 2 2" "flipping ?occ ?mine ?fs 2 2"
    "candidate ?occ ?fs 2 3" "\<not> flipping ?occ ?mine ?fs 2 3" "\<not> candidate ?occ ?fs 0 0"
    by code_simp+
  have b: "\<not> (\<exists>r c. candidate ?occp ?fp r c \<and> flipping ?occp ?minep ?fp r c)"
    unfolding some_flipping_candidate_code by code_simp
  have c: "candidate ?occp ?fp 0 1" "candidate ?occp ?fp 1 1" "\<not> candidate ?occp ?fp 0 0"
    "\<not> candidate ?occp ?fp 2 2"
    by code_simp+
  note t = legal_moves_flipping_candidates_or_all [of InitialState corner_board fresh_moves]
  from t g(1) obtain ms where ms: "ListValidMoves InitialState = Some ms"
    and s: "set ms = (if \<exists>r c. candidate ?occ ?fs r c \<and> flipping ?occ ?mine ?fs r c
              then {m. candidate ?occ ?fs (row m) (col m) \<and> flipping ?occ ?mine ?fs (row m) (col m)}
              else {m. candidate ?occ ?fs (row m) (col m)})"
    by blast
  from a(1,2) have "\<exists>r c. candidate ?occ ?fs r c \<and> flipping ?occ ?mine ?fs r c" by blast
  with s have s': "set ms = {m. candidate ?occ ?fs (row m) (col m) \<and> flipping ?occ ?mine ?fs (row m) (col m)}"
    by (simp only: if_True)
  have 1: "\<lparr>row = 2, col = 2\<rparr> \<in> set ms" "\<lparr>row = 2, col = 3\<rparr> \<notin> set ms" "\<lparr>row = 0, col = 0\<rparr> \<notin> set ms"
    unfolding s' mem_Collect_eq Move.select_convs using a by blast+
  from t g(2) len obtain moves' n where lm: "ListMoves corner_board fresh_moves = Some (moves', n)"
    and sp: "set (take n moves') = (if \<exists>r c. candidate ?occp ?fp r c \<and> flipping ?occp ?minep ?fp r c
              then {m. candidate ?occp ?fp (row m) (col m) \<and> flipping ?occp ?minep ?fp (row m) (col m)}
              else {m. candidate ?occp ?fp (row m) (col m)})"
    by blast
  from b sp have sp': "set (take n moves') = {m. candidate ?occp ?fp (row m) (col m)}"
    by (simp only: if_False)
  have 2: "\<lparr>row = 0, col = 1\<rparr> \<in> set (take n moves')" "\<lparr>row = 1, col = 1\<rparr> \<in> set (take n moves')"
    "\<lparr>row = 0, col = 0\<rparr> \<notin> set (take n moves')" "\<lparr>row = 2, col = 2\<rparr> \<notin> set (take n moves')"
    unfolding sp' mem_Collect_eq Move.select_convs using c by blast+
  have a4: "\<not> flipping (\<lambda>x. x \<noteq> 0) (\<lambda>x. sint x = 1) (s_fields InitialState) 2 3"
    using a(4) unfolding pl .
  from g len a(3) a4 ms 1 lm 2 show ?thesis by blast
qed

text \<open>
  Claim C1 with a flip as the specification describes it (a run of opposing discs closed
  by an own disc) fails on the initial position. C3 and C5 are candidates, C5 has such a
  flip (D5 between C5 and E5) and C3 has none (D4, next to it towards E5, is an own
  disc), so the claim has C3 outside the legal moves; both programs return it.
\<close>

theorem legal_moves_spec_flip_counterexample:
  "candidate (\<lambda>x. x \<noteq> 0) (s_fields InitialState) 2 4
   \<and> claimed_flipping (\<lambda>x. x \<noteq> 0) (\<lambda>x. sint x = 1) (s_fields InitialState) 2 4
   \<and> candidate (\<lambda>x. x \<noteq> 0) (s_fields InitialState) 2 2
   \<and> \<not> claimed_flipping (\<lambda>x. x \<noteq> 0) (\<lambda>x. sint x = 1) (s_fields InitialState) 2 2
   \<and> (moves_played InitialState AND 1) + 1 = 1
   \<and> map_option (\<lambda>ms. \<lparr>row = 2, col = 2\<rparr> \<in> set ms) (ListValidMoves InitialState) = Some True
   \<and> candidate (\<lambda>x. x \<noteq> NONE) (b_fields InitialBoard) 2 4
   \<and> claimed_flipping (\<lambda>x. x \<noteq> NONE) (\<lambda>x. x = WHITE) (b_fields InitialBoard) 2 4
   \<and> candidate (\<lambda>x. x \<noteq> NONE) (b_fields InitialBoard) 2 2
   \<and> \<not> claimed_flipping (\<lambda>x. x \<noteq> NONE) (\<lambda>x. x = WHITE) (b_fields InitialBoard) 2 2
   \<and> next_player InitialBoard = WHITE
   \<and> map_option (\<lambda>res. \<lparr>row = 2, col = 2\<rparr> \<in> set (take (snd res) (fst res)))
        (ListMoves InitialBoard fresh_moves) = Some True"
  by (intro conjI; code_simp)

section \<open>The player's evaluation and search\<close>

subsection \<open>The leaf evaluation\<close>

lemma Evaluate_step_eq:
  assumes "ValidCoords (fst rc) (snd rc)"
  shows "Evaluate_step board rc (Some s) = Some (s + cell_value board rc)"
proof (cases "cell (b_fields board) (fst rc) (snd rc) = NONE")
  case True
  note nb = HasOccupiedNeighbor_player_eq [OF assms True]
  have c: "candidate (\<lambda>x. x \<noteq> NONE) (b_fields board) (fst rc) (snd rc)
      \<longleftrightarrow> neighbor_occupied (\<lambda>x. x \<noteq> NONE) (b_fields board) (fst rc) (snd rc)"
    using assms True by (simp add: candidate_def)
  have hf: "HasFlips (b_fields board) p (fst rc) (snd rc)
      = Some (flipping (\<lambda>x. x \<noteq> NONE) (\<lambda>x. x = p) (b_fields board) (fst rc) (snd rc))" for p
    by (simp add: HasFlips_eq [OF assms] flipping_iff [OF assms])
  show ?thesis
    using True by (simp add: Evaluate_step_def cell_value_def nb c hf)
next
  case False
  then show ?thesis by (simp add: Evaluate_step_def cell_value_def)
qed

lemma Evaluate_fold:
  assumes "\<And>x. x \<in> set xs \<Longrightarrow> ValidCoords (fst x) (snd x)"
  shows "fold (Evaluate_step board) xs (Some s) = Some (s + sum_list (map (cell_value board) xs))"
  using assms
proof (induction xs arbitrary: s)
  case Nil
  then show ?case by simp
next
  case (Cons x xs)
  have "ValidCoords (fst x) (snd x)" using Cons.prems by simp
  from Evaluate_step_eq [OF this] Cons show ?case by (simp add: add.assoc)
qed

lemma Evaluate_eq: "Evaluate board = Some (sum_list (map (cell_value board) all_cells))"
  using Evaluate_fold [of all_cells board 0]
  by (simp add: Evaluate_def set_all_cells case_prod_beta)

lemma sum_list_indicator:
  "sum_list (map (\<lambda>x. if P x then (k :: int) else 0) xs) = k * int (length (filter P xs))"
  by (induction xs) (simp_all add: algebra_simps)

lemma cell_value_split:
  assumes "next_player board \<noteq> NONE"
  shows "cell_value board rc =
     (if cell (b_fields board) (fst rc) (snd rc) = next_player board then 1 else 0)
     - (if cell (b_fields board) (fst rc) (snd rc) = Other (next_player board) then 1 else 0)
     + (if candidate (\<lambda>x. x \<noteq> NONE) (b_fields board) (fst rc) (snd rc)
           \<and> flipping (\<lambda>x. x \<noteq> NONE) (\<lambda>x. x = next_player board) (b_fields board) (fst rc) (snd rc)
        then 2 else 0)
     - (if candidate (\<lambda>x. x \<noteq> NONE) (b_fields board) (fst rc) (snd rc)
           \<and> flipping (\<lambda>x. x \<noteq> NONE) (\<lambda>x. x = Other (next_player board)) (b_fields board)
                (fst rc) (snd rc)
        then 2 else 0)"
proof (cases "cell (b_fields board) (fst rc) (snd rc) = NONE")
  case True
  have "NONE \<noteq> Other (next_player board)" "NONE \<noteq> next_player board"
    using assms by (cases "next_player board"; simp)+
  with True show ?thesis by (simp add: cell_value_def)
next
  case False
  then have "\<not> candidate (\<lambda>x. x \<noteq> NONE) (b_fields board) (fst rc) (snd rc)"
    by (simp add: candidate_def)
  moreover have "cell (b_fields board) (fst rc) (snd rc) \<noteq> next_player board
      \<Longrightarrow> cell (b_fields board) (fst rc) (snd rc) = Other (next_player board)"
    using False assms
    by (cases "cell (b_fields board) (fst rc) (snd rc)"; cases "next_player board") simp_all
  moreover have "Other (next_player board) \<noteq> next_player board"
    using assms by (cases "next_player board") simp_all
  ultimately show ?thesis using False by (auto simp: cell_value_def)
qed

lemma cell_value_bound: "\<bar>cell_value board rc\<bar> \<le> 2"
  by (simp add: cell_value_def)

lemma sum_list_abs_bound:
  assumes "\<And>x. x \<in> set xs \<Longrightarrow> \<bar>f x\<bar> \<le> (k :: int)"
  shows "\<bar>sum_list (map f xs)\<bar> \<le> k * int (length xs)"
  using assms
proof (induction xs)
  case Nil
  then show ?case by simp
next
  case (Cons x xs)
  have "\<bar>f x + sum_list (map f xs)\<bar> \<le> \<bar>f x\<bar> + \<bar>sum_list (map f xs)\<bar>" by (rule abs_triangle_ineq)
  also have "\<dots> \<le> k + k * int (length xs)"
    using Cons.prems Cons.IH by (intro add_mono) simp_all
  finally show ?case by (simp add: algebra_simps)
qed

lemma Evaluate_bound: "\<exists>v. Evaluate board = Some v \<and> \<bar>v\<bar> \<le> 128"
proof -
  have "\<bar>sum_list (map (cell_value board) all_cells)\<bar> \<le> 2 * int (length all_cells)"
    by (intro sum_list_abs_bound cell_value_bound)
  then show ?thesis by (simp add: Evaluate_eq length_all_cells)
qed

lemma claimed_flipping_directions:
  "claimed_flipping occ mine fs r c =
     list_ex (\<lambda>(dr, dc). (dr \<noteq> 0 \<or> dc \<noteq> 0) \<and>
        list_ex (\<lambda>m.
           list_all (\<lambda>k. ok_at occ fs r c dr dc k \<and> \<not> own_at mine fs r c dr dc k) [1 .. m - 1]
           \<and> ok_at occ fs r c dr dc m \<and> own_at mine fs r c dr dc m) [2 .. 7])
       directions"
    (is "?L = ?R")
proof
  assume ?L
  then obtain r' c' dr dc m n where d: "(dr, dc) \<in> set directions" "dr \<noteq> 0 \<or> dc \<noteq> 0"
    and m: "1 \<le> m" "m \<le> 7"
      "list_all (\<lambda>k. ok_at occ fs r c dr dc k \<and> \<not> own_at mine fs r c dr dc k) [1 .. m - 1]"
      "ok_at occ fs r c dr dc m" "own_at mine fs r c dr dc m"
    and n: "1 \<le> n" "n \<le> m - 1"
    by (auto simp: claimed_flipping_def claimed_flipped_def list_ex_iff)
  from n m have "m \<in> {2 .. 7}" by auto
  then have "m \<in> set [2 .. 7]" by (simp only: set_upto)
  with m(3-5) have "\<exists>m\<in>set [2 .. 7].
           list_all (\<lambda>k. ok_at occ fs r c dr dc k \<and> \<not> own_at mine fs r c dr dc k) [1 .. m - 1]
           \<and> ok_at occ fs r c dr dc m \<and> own_at mine fs r c dr dc m" by blast
  with d show ?R unfolding list_ex_iff by (intro bexI [of _ "(dr, dc)"]) simp_all
next
  assume ?R
  then obtain dr dc m where d: "(dr, dc) \<in> set directions" "dr \<noteq> 0 \<or> dc \<noteq> 0"
    and m: "2 \<le> m" "m \<le> 7"
      "list_all (\<lambda>k. ok_at occ fs r c dr dc k \<and> \<not> own_at mine fs r c dr dc k) [1 .. m - 1]"
      "ok_at occ fs r c dr dc m" "own_at mine fs r c dr dc m"
    unfolding list_ex_iff set_upto by auto
  from m(1,3) have "ok_at occ fs r c dr dc 1" by (simp add: list_all_iff)
  then have v: "(r + 1 * dr, c + 1 * dc) \<in> set all_cells" by (simp add: ok_at_def set_all_cells)
  have "\<exists>n\<in>set [1 .. m - 1]. r + 1 * dr = r + n * dr \<and> c + 1 * dc = c + n * dc"
    using m(1) by (intro bexI [of _ 1]) simp_all
  with m have "\<exists>m\<in>set [1 .. 7].
           list_all (\<lambda>k. ok_at occ fs r c dr dc k \<and> \<not> own_at mine fs r c dr dc k) [1 .. m - 1]
           \<and> ok_at occ fs r c dr dc m \<and> own_at mine fs r c dr dc m
           \<and> (\<exists>n\<in>set [1 .. m - 1]. r + 1 * dr = r + n * dr \<and> c + 1 * dc = c + n * dc)"
    by (intro bexI [of _ m]) simp_all
  with d have "claimed_flipped occ mine fs r c (r + 1 * dr) (c + 1 * dc)"
    unfolding claimed_flipped_def list_ex_iff by (intro bexI [of _ "(dr, dc)"]) simp_all
  with v show ?L unfolding claimed_flipping_def list_ex_iff
    by (intro bexI [of _ "(r + 1 * dr, c + 1 * dc)"]) simp_all
qed

declare claimed_flipping_directions [code]


text \<open>
  Claim C8, as amended. For every 8 by 8 board with a side to move, \<^verbatim>\<open>Evaluate\<close> returns
  the material differential, +1 for each cell of the side to move and -1 for each cell of
  the opponent, plus 2 for each candidate (empty cell with an occupied neighbour) that is
  flipping for the side to move and minus 2 for each candidate that is flipping for the
  opponent. A candidate is flipping under the rule of the code (claim C2 as amended):
  some cell lies strictly between it and an own disc reached over occupied cells of
  either colour.
\<close>

theorem Evaluate_material_plus_mobility:
  assumes "grid (b_fields board)" "next_player board \<noteq> NONE"
  shows "Evaluate board = Some (
      int (length (filter (\<lambda>(r, c). cell (b_fields board) r c = next_player board) all_cells))
    - int (length (filter (\<lambda>(r, c). cell (b_fields board) r c = Other (next_player board)) all_cells))
    + 2 * int (length (filter (\<lambda>(r, c). candidate (\<lambda>x. x \<noteq> NONE) (b_fields board) r c
          \<and> flipping (\<lambda>x. x \<noteq> NONE) (\<lambda>x. x = next_player board) (b_fields board) r c) all_cells))
    - 2 * int (length (filter (\<lambda>(r, c). candidate (\<lambda>x. x \<noteq> NONE) (b_fields board) r c
          \<and> flipping (\<lambda>x. x \<noteq> NONE) (\<lambda>x. x = Other (next_player board)) (b_fields board) r c)
        all_cells)))"
proof -
  let ?a = "\<lambda>rc. cell (b_fields board) (fst rc) (snd rc) = next_player board"
  let ?b = "\<lambda>rc. cell (b_fields board) (fst rc) (snd rc) = Other (next_player board)"
  let ?c = "\<lambda>rc. candidate (\<lambda>x. x \<noteq> NONE) (b_fields board) (fst rc) (snd rc)
          \<and> flipping (\<lambda>x. x \<noteq> NONE) (\<lambda>x. x = next_player board) (b_fields board) (fst rc) (snd rc)"
  let ?d = "\<lambda>rc. candidate (\<lambda>x. x \<noteq> NONE) (b_fields board) (fst rc) (snd rc)
          \<and> flipping (\<lambda>x. x \<noteq> NONE) (\<lambda>x. x = Other (next_player board)) (b_fields board)
               (fst rc) (snd rc)"
  have "sum_list (map (cell_value board) xs) =
      sum_list (map (\<lambda>x. if ?a x then 1 else 0) xs) - sum_list (map (\<lambda>x. if ?b x then 1 else 0) xs)
      + sum_list (map (\<lambda>x. if ?c x then 2 else 0) xs) - sum_list (map (\<lambda>x. if ?d x then 2 else 0) xs)"
    for xs
    by (induction xs) (simp_all add: cell_value_split [OF assms(2)])
  then have "sum_list (map (cell_value board) all_cells) =
      int (length (filter ?a all_cells)) - int (length (filter ?b all_cells))
      + 2 * int (length (filter ?c all_cells)) - 2 * int (length (filter ?d all_cells))"
    by (simp only: sum_list_indicator mult_1)
  then show ?thesis by (simp only: Evaluate_eq case_prod_unfold)
qed

theorem Evaluate_material_plus_mobility_witness:
  "grid (b_fields after_C3) \<and> next_player after_C3 \<noteq> NONE
   \<and> DoMove InitialBoard \<lparr>row = 2, col = 2\<rparr> = Some after_C3
   \<and> Evaluate after_C3 = Some 13
   \<and> int (length (filter (\<lambda>(r, c). cell (b_fields after_C3) r c = next_player after_C3) all_cells))
    - int (length (filter (\<lambda>(r, c). cell (b_fields after_C3) r c = Other (next_player after_C3)) all_cells))
    + 2 * int (length (filter (\<lambda>(r, c). candidate (\<lambda>x. x \<noteq> NONE) (b_fields after_C3) r c
          \<and> flipping (\<lambda>x. x \<noteq> NONE) (\<lambda>x. x = next_player after_C3) (b_fields after_C3) r c) all_cells))
    - 2 * int (length (filter (\<lambda>(r, c). candidate (\<lambda>x. x \<noteq> NONE) (b_fields after_C3) r c
          \<and> flipping (\<lambda>x. x \<noteq> NONE) (\<lambda>x. x = Other (next_player after_C3)) (b_fields after_C3) r c)
        all_cells)) = 13"
proof -
  have g: "grid (b_fields after_C3)" by code_simp
  have n: "next_player after_C3 \<noteq> NONE" by code_simp
  have d: "DoMove InitialBoard \<lparr>row = 2, col = 2\<rparr> = Some after_C3" by code_simp
  have e: "Evaluate after_C3 = Some 13" by code_simp
  from Evaluate_material_plus_mobility [OF g n] e g n d show ?thesis by simp
qed

text \<open>
  With the flip of the specification (a run of opposing discs closed by an own disc) the
  formula of claim C8 gives 5 for the position after C3 (black to move: 3 discs against
  2, four candidates with such a flip for black, two for white); \<^verbatim>\<open>Evaluate\<close> returns 13.
\<close>

theorem Evaluate_spec_flip_counterexample:
  "DoMove InitialBoard \<lparr>row = 2, col = 2\<rparr> = Some after_C3
   \<and> Evaluate after_C3 = Some 13 \<and> claimed_Evaluate after_C3 = 5"
  by (intro conjI; code_simp)


subsection \<open>The search\<close>

lemma DoMove_grid:
  assumes "grid (b_fields board)" "DoMove board move = Some board'"
  shows "grid (b_fields board')"
proof -
  from assms(2) have v: "ValidCoords (row move) (col move)"
    by (auto simp: DoMove_def Let_def ValidCoords_iff H_def W_def split: if_splits)
  have "grid (store (b_fields board) (row move) (col move) (next_player board))"
    using assms(1) by (rule grid_store)
  from DoFlips_cells [OF this v, of "next_player board"] assms(2) show ?thesis
    by (auto simp: DoMove_def Let_def split: if_splits option.splits)
qed

lemma Search_moves_ok:
  assumes IH: "\<And>b. grid (b_fields b) \<Longrightarrow> \<exists>v. Search b (depth - 1) = Some (b, v) \<and> \<bar>v\<bar> \<le> 128"
    and g: "grid (b_fields board)"
    and ms: "\<And>m. m \<in> set moves \<Longrightarrow>
        ValidCoords (row m) (col m) \<and> cell (b_fields board) (row m) (col m) = NONE"
  shows "\<exists>best'. Search_moves board depth moves best = Some (board, best')
     \<and> best \<le> best' \<and> best' \<le> max best 128 \<and> (moves \<noteq> [] \<longrightarrow> - 128 \<le> best')"
  using ms
proof (induction moves arbitrary: best)
  case Nil
  then show ?case by simp
next
  case (Cons m moves)
  from Cons.prems [of m] have v: "ValidCoords (row m) (col m)"
    and e: "cell (b_fields board) (row m) (col m) = NONE" by simp_all
  from DoMove_UndoMove [OF g v e] obtain b1 where
    d: "DoMove board m = Some b1" and u: "UndoMove b1 m = Some board" by blast
  from DoMove_grid [OF g d] have g1: "grid (b_fields b1)" .
  from IH [OF g1] obtain v1 where s: "Search b1 (depth - 1) = Some (b1, v1)" and b: "\<bar>v1\<bar> \<le> 128"
    by blast
  let ?best1 = "if - v1 > best then - v1 else best"
  have "\<exists>best'. Search_moves board depth moves ?best1 = Some (board, best')
     \<and> ?best1 \<le> best' \<and> best' \<le> max ?best1 128 \<and> (moves \<noteq> [] \<longrightarrow> - 128 \<le> best')"
    using Cons.prems by (intro Cons.IH) simp
  then obtain best' where r: "Search_moves board depth moves ?best1 = Some (board, best')"
    and le: "?best1 \<le> best'" "best' \<le> max ?best1 128" by blast
  have "Search_moves board depth (m # moves) best = Some (board, best')"
    using d s u r by simp
  moreover have "best \<le> best'" "best' \<le> max best 128" "- 128 \<le> best'"
    using le b by (auto split: if_splits)
  ultimately show ?case by simp
qed

lemma Search_ok:
  "grid (b_fields board) \<Longrightarrow> \<exists>v. Search board depth = Some (board, v) \<and> \<bar>v\<bar> \<le> 128"
proof (induction "nat depth" arbitrary: depth board)
  case 0
  then have "depth \<le> 0" by simp
  then have "Search board depth = map_option (Pair board) (Evaluate board)" by simp
  with Evaluate_bound [of board] show ?case by auto
next
  case (Suc k)
  then have pos: "\<not> depth \<le> 0" and k: "k = nat (depth - 1)" by simp_all
  have IH: "\<exists>v. Search b (depth - 1) = Some (b, v) \<and> \<bar>v\<bar> \<le> 128" if "grid (b_fields b)" for b
    using Suc.hyps(1) [OF k that] .
  have "length fresh_moves = MAX_MOVES_player" by (simp add: fresh_moves_def)
  from ListMoves_eq [OF this, of board] obtain moves n where
    l: "ListMoves board fresh_moves = Some (moves, n)" and nl: "n \<le> length moves"
    and t: "take n moves = map mk_move (legal_cells (\<lambda>x. x \<noteq> NONE) (\<lambda>x. x = next_player board)
                                         (b_fields board))"
    by blast
  show ?case
  proof (cases "n \<le> 0")
    case True
    with l pos have "Search board depth = map_option (Pair board) (Evaluate board)" by simp
    with Evaluate_bound [of board] show ?thesis by auto
  next
    case False
    with nl have "length (take n moves) \<noteq> 0" by simp
    then have ne: "take n moves \<noteq> []" by (simp only: length_0_conv not_False_eq_True)
    have ms: "ValidCoords (row m) (col m) \<and> cell (b_fields board) (row m) (col m) = NONE"
      if "m \<in> set (take n moves)" for m
      using legal_moves_candidates [of m "\<lambda>x. x \<noteq> NONE" "\<lambda>x. x = next_player board" "b_fields board"]
        that t by (simp add: candidate_def)
    from Search_moves_ok [OF IH Suc.prems ms, of "take n moves" "MIN_VALUE - 1"] ne
    obtain best' where r: "Search_moves board depth (take n moves) (MIN_VALUE - 1) = Some (board, best')"
      and b: "- 128 \<le> best'" "best' \<le> max (MIN_VALUE - 1) 128" by blast
    from b have b': "\<bar>best'\<bar> \<le> 128" "best' \<ge> MIN_VALUE" "best' \<le> MAX_VALUE"
      by (simp_all add: MIN_VALUE_def MAX_VALUE_def)
    from l pos False r b'(2,3) have "Search board depth = Some (board, best')" by simp
    with b'(1) show ?thesis by simp
  qed
qed

text \<open>
  Claim C10. For every 8 by 8 board and every depth, \<^verbatim>\<open>Evaluate\<close> returns a value of
  magnitude at most 128 (64 cells, each worth between -2 and 2), and \<^verbatim>\<open>Search\<close> returns:
  no \<^verbatim>\<open>CHECK\<close> fails, no index leaves an array, every loop ends. It hands the board back
  as it received it, and its value lies within \<open>[-128, 128]\<close>, hence within
  \<open>[MIN_VALUE, MAX_VALUE]\<close>.
\<close>

theorem Search_within_bounds:
  assumes "grid (b_fields board)"
  shows "(\<exists>v. Evaluate board = Some v \<and> \<bar>v\<bar> \<le> 128)
     \<and> (\<exists>v. Search board depth = Some (board, v) \<and> \<bar>v\<bar> \<le> 128
            \<and> MIN_VALUE \<le> v \<and> v \<le> MAX_VALUE)"
proof -
  from Search_ok [OF assms, of depth] obtain v where
    v: "Search board depth = Some (board, v)" "\<bar>v\<bar> \<le> 128" by blast
  then have "MIN_VALUE \<le> v" "v \<le> MAX_VALUE" by (simp_all add: MIN_VALUE_def MAX_VALUE_def)
  with v Evaluate_bound [of board] show ?thesis by blast
qed

theorem Search_within_bounds_witness:
  "grid (b_fields InitialBoard)
   \<and> Evaluate InitialBoard = Some 0
   \<and> (\<exists>v. Search InitialBoard 3 = Some (InitialBoard, v) \<and> - 9999 \<le> v \<and> v \<le> 9999)
   \<and> Search InitialBoard 1 = Some (InitialBoard, 17)"
proof -
  have g: "grid (b_fields InitialBoard)" by code_simp
  have e: "Evaluate InitialBoard = Some 0" by code_simp
  from Search_within_bounds [OF g, of 3] obtain v where
    "Search InitialBoard 3 = Some (InitialBoard, v)" "MIN_VALUE \<le> v" "v \<le> MAX_VALUE" by blast
  then have 3: "\<exists>v. Search InitialBoard 3 = Some (InitialBoard, v) \<and> - 9999 \<le> v \<and> v \<le> 9999"
    by (simp add: MIN_VALUE_def MAX_VALUE_def)
  from Search_within_bounds [OF g, of 1] obtain w where
    w: "Search InitialBoard 1 = Some (InitialBoard, w)" by blast
  have "map_option snd (Search InitialBoard 1) = Some 17" by code_simp
  with w have 1: "Search InitialBoard 1 = Some (InitialBoard, 17)" by simp
  from g e 3 1 show ?thesis by blast
qed

section \<open>Matches\<close>

subsection \<open>One executed move\<close>

lemma tidy_cell:
  "tidy state \<Longrightarrow> ValidCoords r c \<Longrightarrow>
     cell (s_fields state) r c = 0 \<or> cell (s_fields state) r c = 1 \<or> cell (s_fields state) r c = 2"
  by (auto simp: tidy_def list_all_iff set_all_cells)

lemma mover_cases: "(k AND 1) + 1 = 1 \<or> (k AND 1) + 1 = (2 :: int)"
  by (simp add: and_one_eq) presburger

lemma flipped_occupied:
  assumes "ValidCoords r c" "flipped occ mine fs r c r' c'"
  shows "occ (cell fs r' c')"
proof -
  from assms obtain dr dc n where d: "(dr, dc) \<in> set directions" "dr \<noteq> 0 \<or> dc \<noteq> 0" "1 \<le> n"
    "n < last_own occ mine fs r c dr dc" "r' = r + n * dr" "c' = c + n * dc"
    unfolding flipped_iff [OF assms(1)] by blast
  from d(1,2) have d8: "dir8 dr dc" by (rule directions_dir8)
  from last_own_cases [OF assms(1) d8, of occ mine fs] d(3,4)
  have "bracket occ mine fs r c dr dc (last_own occ mine fs r c dr dc)" by auto
  then have "ok_at occ fs r c dr dc n" using d(3,4) by (simp add: bracket_run run_def)
  with d(5,6) show ?thesis by (simp add: ok_at_def)
qed

lemma ExecuteMove_cells:
  assumes t: "tidy state" and v: "ValidCoords (row move) (col move)"
  shows "\<exists>state'. ExecuteMove state move = Some state' \<and> tidy state'
     \<and> moves_played state' = moves_played state + 1
     \<and> (\<forall>r c. ValidCoords r c \<longrightarrow>
           cell (s_fields state') r c =
             (if r = row move \<and> c = col move then word_of_int ((moves_played state AND 1) + 1)
              else if flipped (\<lambda>x. x \<noteq> 0) (\<lambda>x. sint x = (moves_played state AND 1) + 1)
                        (s_fields state) (row move) (col move) r c
              then cell (s_fields state) r c XOR 3 else cell (s_fields state) r c))
     \<and> (\<forall>r c. ValidCoords r c \<longrightarrow>
           (cell (s_fields state') r c \<noteq> 0) =
             (cell (s_fields state) r c \<noteq> 0 \<or> (r = row move \<and> c = col move)))"
proof -
  let ?pl = "(moves_played state AND 1) + 1"
  let ?F = "flipped (\<lambda>x. x \<noteq> 0) (\<lambda>x. sint x = ?pl) (s_fields state) (row move) (col move)"
  from t have g: "grid (s_fields state)" by (simp add: tidy_def)
  from FindFlips_flip_cells [OF g v, of ?pl] obtain s1 where
    f: "FindFlips state ?pl (row move) (col move) flip_callback = Some (True, s1)"
    and mp: "moves_played s1 = moves_played state" and g1: "grid (s_fields s1)"
    and c1: "\<And>r c. ValidCoords r c \<Longrightarrow> cell (s_fields s1) r c =
           (if ?F r c then cell (s_fields state) r c XOR 3 else cell (s_fields state) r c)"
    by blast
  let ?s' = "s1\<lparr>s_fields := store (s_fields s1) (row move) (col move) (word_of_int ?pl),
                 moves_played := moves_played s1 + 1\<rparr>"
  have ex: "ExecuteMove state move = Some ?s'"
    using f v by (simp add: ExecuteMove_def Let_def)
  have g': "grid (s_fields ?s')" using g1 by (simp add: grid_store)
  have pw: "word_of_int ?pl = (1 :: 8 word) \<or> word_of_int ?pl = (2 :: 8 word)"
    using mover_cases [of "moves_played state"] by auto
  have c': "cell (s_fields ?s') r c =
      (if r = row move \<and> c = col move then word_of_int ?pl
       else if ?F r c then cell (s_fields state) r c XOR 3 else cell (s_fields state) r c)"
    if vc: "ValidCoords r c" for r c
    using cell_store [OF g1 v vc, of "word_of_int ?pl"] c1 [OF vc] by simp
  have val: "cell (s_fields ?s') r c = 0 \<or> cell (s_fields ?s') r c = 1 \<or> cell (s_fields ?s') r c = 2"
    and occ: "(cell (s_fields ?s') r c \<noteq> 0) = (cell (s_fields state) r c \<noteq> 0 \<or> (r = row move \<and> c = col move))"
    if vc: "ValidCoords r c" for r c
  proof -
    note old = tidy_cell [OF t vc]
    have fo: "?F r c \<Longrightarrow> cell (s_fields state) r c \<noteq> 0"
      using flipped_occupied [OF v, of "\<lambda>x. x \<noteq> 0" "\<lambda>x. sint x = ?pl" "s_fields state" r c] by simp
    have x1: "(1 :: 8 word) XOR 3 = 2" and x2: "(2 :: 8 word) XOR 3 = 1" by simp_all
    show "cell (s_fields ?s') r c = 0 \<or> cell (s_fields ?s') r c = 1 \<or> cell (s_fields ?s') r c = 2"
      unfolding c' [OF vc] using old fo pw x1 x2 by (auto split: if_splits)
    show "(cell (s_fields ?s') r c \<noteq> 0) = (cell (s_fields state) r c \<noteq> 0 \<or> (r = row move \<and> c = col move))"
      unfolding c' [OF vc] using old fo pw x1 x2 by (auto split: if_splits)
  qed
  have t': "tidy ?s'"
    unfolding tidy_def using g' val by (auto simp: list_all_iff set_all_cells)
  have mp': "moves_played ?s' = moves_played state + 1" using mp by simp
  from ex t' mp' c' occ show ?thesis by blast
qed

lemma legal_move_candidate:
  assumes "ListValidMoves state = Some valid_moves" "move \<in> set valid_moves"
  shows "ValidCoords (row move) (col move)" "cell (s_fields state) (row move) (col move) = 0"
proof -
  from assms have "move \<in> set (map mk_move (legal_cells (\<lambda>x. x \<noteq> 0)
        (\<lambda>x. sint x = (moves_played state AND 1) + 1) (s_fields state)))"
    by (simp add: ListValidMoves_eq)
  from legal_moves_candidates [OF this]
  show "ValidCoords (row move) (col move)" "cell (s_fields state) (row move) (col move) = 0"
    by (simp_all add: candidate_def)
qed

lemma occupied_cells_step:
  assumes v: "ValidCoords (row move) (col move)"
    and e: "cell (s_fields state) (row move) (col move) = 0"
    and occ: "\<And>r c. ValidCoords r c \<Longrightarrow>
           (cell (s_fields state') r c \<noteq> 0) =
             (cell (s_fields state) r c \<noteq> 0 \<or> (r = row move \<and> c = col move))"
  shows "length (occupied_cells state') = Suc (length (occupied_cells state))"
proof -
  have d: "distinct (occupied_cells state)" "distinct (occupied_cells state')"
    by (simp_all add: occupied_cells_def distinct_all_cells)
  have "set (occupied_cells state') = insert (row move, col move) (set (occupied_cells state))"
    using v occ by (auto simp: occupied_cells_def set_all_cells)
  moreover have "(row move, col move) \<notin> set (occupied_cells state)"
    using e by (simp add: occupied_cells_def)
  ultimately have "card (set (occupied_cells state')) = Suc (card (set (occupied_cells state)))"
    by simp
  with d show ?thesis by (simp add: distinct_card)
qed

subsection \<open>States reached by legal moves\<close>

lemma tidy_InitialState: "tidy InitialState"
  by code_simp

lemma occupied_InitialState: "length (occupied_cells InitialState) = 4"
  by code_simp

lemma legal_play_invariant:
  assumes "legal_play state moves = Some state'" "tidy state"
  shows "tidy state' \<and> moves_played state' = moves_played state + int (length moves)
     \<and> length (occupied_cells state') = length (occupied_cells state) + length moves"
  using assms
proof (induction moves arbitrary: state)
  case Nil
  then show ?case by simp
next
  case (Cons move moves)
  from Cons.prems(1) obtain valid_moves state1 where
    l: "ListValidMoves state = Some valid_moves" "move \<in> set valid_moves"
    and x: "ExecuteMove state move = Some state1" and r: "legal_play state1 moves = Some state'"
    by (auto split: option.splits if_splits)
  note c = legal_move_candidate [OF l]
  from ExecuteMove_cells [OF Cons.prems(2) c(1)] obtain s1 where
    x1: "ExecuteMove state move = Some s1" and t1': "tidy s1"
    and mp': "moves_played s1 = moves_played state + 1"
    and occ': "\<forall>r c. ValidCoords r c \<longrightarrow>
           (cell (s_fields s1) r c \<noteq> 0) =
             (cell (s_fields state) r c \<noteq> 0 \<or> (r = row move \<and> c = col move))"
    by blast
  from x x1 have e1: "s1 = state1" by simp
  have t1: "tidy state1" using t1' e1 by simp
  have mp: "moves_played state1 = moves_played state + 1" using mp' e1 by simp
  have occ: "(cell (s_fields state1) r c \<noteq> 0) =
             (cell (s_fields state) r c \<noteq> 0 \<or> (r = row move \<and> c = col move))"
    if "ValidCoords r c" for r c
    using occ' e1 that by blast
  from occupied_cells_step [OF c occ]
  have n: "length (occupied_cells state1) = Suc (length (occupied_cells state))" .
  from Cons.IH [OF r t1] mp n show ?case by simp
qed

text \<open>
  Claim C9. In every state reached from \<^verbatim>\<open>InitialState\<close> by legal moves applied with
  \<^verbatim>\<open>ExecuteMove\<close>, the number of occupied cells is 4 plus \<^verbatim>\<open>moves_played\<close>, which is the
  number of moves made. From such a state every legal move targets an empty cell of the
  board, \<^verbatim>\<open>ExecuteMove\<close> returns, and in the state it leaves the occupied cells are those
  occupied before and the target: flipping changes no cell from or to empty.
\<close>

theorem occupied_cells_four_plus_moves_played:
  assumes "legal_play InitialState moves = Some state"
  shows "int (length (occupied_cells state)) = 4 + moves_played state
     \<and> moves_played state = int (length moves)
     \<and> (\<forall>valid_moves move. ListValidMoves state = Some valid_moves \<and> move \<in> set valid_moves \<longrightarrow>
          ValidCoords (row move) (col move) \<and> cell (s_fields state) (row move) (col move) = 0
          \<and> (\<exists>state'. ExecuteMove state move = Some state'
                \<and> (\<forall>r c. ValidCoords r c \<longrightarrow>
                       (cell (s_fields state') r c \<noteq> 0) =
                         (cell (s_fields state) r c \<noteq> 0 \<or> (r = row move \<and> c = col move)))
                \<and> length (occupied_cells state') = length (occupied_cells state) + 1))"
proof -
  from legal_play_invariant [OF assms tidy_InitialState]
  have t: "tidy state" and mp: "moves_played state = moves_played InitialState + int (length moves)"
    and n: "length (occupied_cells state) = length (occupied_cells InitialState) + length moves"
    by simp_all
  have mp0: "moves_played InitialState = 0" by (simp add: InitialState_def Let_def)
  have 1: "int (length (occupied_cells state)) = 4 + moves_played state"
    using n mp mp0 occupied_InitialState by simp
  have 2: "moves_played state = int (length moves)" using mp mp0 by simp
  have 3: "ValidCoords (row move) (col move) \<and> cell (s_fields state) (row move) (col move) = 0
          \<and> (\<exists>state'. ExecuteMove state move = Some state'
                \<and> (\<forall>r c. ValidCoords r c \<longrightarrow>
                       (cell (s_fields state') r c \<noteq> 0) =
                         (cell (s_fields state) r c \<noteq> 0 \<or> (r = row move \<and> c = col move)))
                \<and> length (occupied_cells state') = length (occupied_cells state) + 1)"
    if l: "ListValidMoves state = Some valid_moves" "move \<in> set valid_moves" for valid_moves move
  proof -
    note c = legal_move_candidate [OF l]
    from ExecuteMove_cells [OF t c(1)] obtain s1 where
      x: "ExecuteMove state move = Some s1"
      and occ: "\<forall>r c. ValidCoords r c \<longrightarrow>
           (cell (s_fields s1) r c \<noteq> 0) =
             (cell (s_fields state) r c \<noteq> 0 \<or> (r = row move \<and> c = col move))"
      by blast
    have "length (occupied_cells s1) = Suc (length (occupied_cells state))"
      using occ by (intro occupied_cells_step [OF c]) blast
    with c x occ show ?thesis by auto
  qed
  from 1 2 3 show ?thesis by blast
qed

theorem occupied_cells_four_plus_moves_played_witness:
  "\<exists>state. legal_play InitialState opening3 = Some state
     \<and> length (occupied_cells state) = 7 \<and> moves_played state = 3"
proof -
  have "map_option moves_played (legal_play InitialState opening3) = Some 3" by code_simp
  then obtain state where l: "legal_play InitialState opening3 = Some state"
    and m: "moves_played state = 3" by auto
  from occupied_cells_four_plus_moves_played [OF l] m
  have "length (occupied_cells state) = 7" by simp
  with l m show ?thesis by blast
qed

subsection \<open>The score\<close>

lemma CalculateScore_fold:
  assumes "\<And>x. x \<in> set xs \<Longrightarrow> cell (s_fields state) (fst x) (snd x) = 0
      \<or> cell (s_fields state) (fst x) (snd x) = 1 \<or> cell (s_fields state) (fst x) (snd x) = 2"
  shows "fold (CalculateScore_step state) xs (Some [a, b, c]) =
     Some [a + int (length (filter (\<lambda>x. cell (s_fields state) (fst x) (snd x) = 0) xs)),
           b + int (length (filter (\<lambda>x. cell (s_fields state) (fst x) (snd x) = 1) xs)),
           c + int (length (filter (\<lambda>x. cell (s_fields state) (fst x) (snd x) = 2) xs))]"
  using assms
proof (induction xs arbitrary: a b c)
  case Nil
  then show ?case by simp
next
  case (Cons x xs)
  from Cons.prems [of x] consider "cell (s_fields state) (fst x) (snd x) = 0"
    | "cell (s_fields state) (fst x) (snd x) = 1" | "cell (s_fields state) (fst x) (snd x) = 2"
    by auto
  then show ?case
  proof cases
    case 1
    then have "CalculateScore_step state x (Some [a, b, c]) = Some [a + 1, b, c]"
      by (simp add: CalculateScore_step_def)
    with 1 Cons.IH [of "a + 1" b c] Cons.prems show ?thesis by simp
  next
    case 2
    then have "CalculateScore_step state x (Some [a, b, c]) = Some [a, b + 1, c]"
      by (simp add: CalculateScore_step_def)
    with 2 Cons.IH [of a "b + 1" c] Cons.prems show ?thesis by simp
  next
    case 3
    then have "CalculateScore_step state x (Some [a, b, c]) = Some [a, b, c + 1]"
      by (simp add: CalculateScore_step_def)
    with 3 Cons.IH [of a b "c + 1"] Cons.prems show ?thesis by simp
  qed
qed

lemma CalculateScore_tidy:
  assumes "tidy state"
  shows "CalculateScore state =
     Some (int (length (filter (\<lambda>(r, c). cell (s_fields state) r c = 1) all_cells))
           - int (length (filter (\<lambda>(r, c). cell (s_fields state) r c = 2) all_cells)))"
proof -
  have "cell (s_fields state) (fst x) (snd x) = 0 \<or> cell (s_fields state) (fst x) (snd x) = 1
      \<or> cell (s_fields state) (fst x) (snd x) = 2" if "x \<in> set all_cells" for x
    using that tidy_cell [OF assms, of "fst x" "snd x"] by (auto simp: set_all_cells)
  from CalculateScore_fold [of all_cells state 0 0 0, OF this]
  show ?thesis by (simp add: CalculateScore_def case_prod_unfold)
qed

subsection \<open>The loop of a match\<close>

lemma GetNextPlayer_cases: "GetNextPlayer state = 0 \<or> GetNextPlayer state = 1"
  by (simp add: GetNextPlayer_def and_one_eq) presburger

lemma GetNextPlayer_step:
  "moves_played state' = moves_played state + 1 \<Longrightarrow> GetNextPlayer state' = 1 - GetNextPlayer state"
  by (simp add: GetNextPlayer_def and_one_eq) presburger

lemma ReadLine_cases: "snd (ReadLine rd) = [] \<or> fst (ReadLine rd) = []"
  by (cases rd) (simp_all add: ReadLine_def)

lemma ParseMove_Nil: "ParseMove [] = None"
  by (simp add: ParseMove_def)

lemma ValidateMove_eq:
  "\<exists>valid_moves reason. ListValidMoves state = Some valid_moves
     \<and> ValidateMove state move = Some (move \<in> set valid_moves, reason)"
  by (simp add: ValidateMove_def ListValidMoves_eq)

lemma RunGame_loop_result:
  assumes "tidy state" "0 \<le> moves_played state" "moves_played state \<le> 60"
    and "int (length history) = moves_played state"
    and "started \<or> moves_played state = 0"
  shows "\<exists>state' moves log'.
     RunGame_loop env state history started log = Some (state', history @ moves, log')
     \<and> legal_play state moves = Some state'
     \<and> tidy state' \<and> moves_played state' \<le> 60
     \<and> int (length (history @ moves)) = moves_played state'
     \<and> (if IsGameOver state' then log' = log
         else \<exists>pre cause. log' = log @ pre @ [cause] \<and> aborted_by env state' (history @ moves) cause)"
  using assms
proof (induction "nat (60 - moves_played state)" arbitrary: state history started log)
  case 0
  then have over: "IsGameOver state" by (simp add: IsGameOver_def MAX_MOVES_def)
  then have "RunGame_loop env state history started log = Some (state, history @ [], log)" by simp
  moreover have "legal_play state [] = Some state" by simp
  ultimately show ?case using 0 over by (intro exI [of _ state] exI [of _ "[]"] exI [of _ log]) simp
next
  case (Suc k)
  then have notover: "\<not> IsGameOver state" and lt: "moves_played state < 60"
    by (simp_all add: IsGameOver_def MAX_MOVES_def)
  note np = GetNextPlayer_cases [of state]
  let ?np = "GetNextPlayer state"
  show ?case
  proof (cases "\<not> started \<and> \<not> start_written env")
    case True
    then have r: "RunGame_loop env state history started log =
        Some (state, history @ [], log @ [] @ [CouldNotSendStart ?np])"
      using notover np by simp
    from True Suc.prems(4,5) have "history = []" by simp
    with True have "aborted_by env state (history @ []) (CouldNotSendStart ?np)"
      by (simp add: aborted_by_def)
    with r notover Suc.prems show ?thesis
      by (intro exI [of _ state] exI [of _ "[]"] exI [of _ "log @ [] @ [CouldNotSendStart ?np]"])
         auto
  next
    case go: False
    obtain line rl where rd: "ReadLine (read_at env (moves_played state)) = (line, rl)"
      by (cases "ReadLine (read_at env (moves_played state))")
    show ?thesis
    proof (cases "ParseMove line")
      case None
      then have r: "RunGame_loop env state history started log =
          Some (state, history @ [], log @ rl @ [CouldNotParse ?np line])"
        using notover np go rd by simp
      have "aborted_by env state (history @ []) (CouldNotParse ?np line)"
        using None rd by (simp add: aborted_by_def)
      with r notover Suc.prems show ?thesis
        by (intro exI [of _ state] exI [of _ "[]"] exI [of _ "log @ rl @ [CouldNotParse ?np line]"])
           auto
    next
      case (Some move)
      from ValidateMove_eq [of state move] obtain valid_moves reason where
        lv: "ListValidMoves state = Some valid_moves"
        and vm: "ValidateMove state move = Some (move \<in> set valid_moves, reason)" by blast
      show ?thesis
      proof (cases "move \<in> set valid_moves")
        case False
        with vm have r: "RunGame_loop env state history started log =
            Some (state, history @ [], log @ rl @ [InvalidMove ?np line reason])"
          using notover np go rd Some by simp
        have "aborted_by env state (history @ []) (InvalidMove ?np line reason)"
          using Some rd vm False by (simp add: aborted_by_def)
        with r notover Suc.prems show ?thesis
          by (intro exI [of _ state] exI [of _ "[]"]
                exI [of _ "log @ rl @ [InvalidMove ?np line reason]"]) auto
      next
        case True
        note c = legal_move_candidate [OF lv True]
        from ExecuteMove_cells [OF Suc.prems(1) c(1)] obtain s1 where
          x: "ExecuteMove state move = Some s1" and t1: "tidy s1"
          and mp: "moves_played s1 = moves_played state + 1" by blast
        from Some ParseMove_Nil have "line \<noteq> []" by auto
        with ReadLine_cases [of "read_at env (moves_played state)"] rd have rl: "rl = []" by simp
        have lp1: "legal_play state [move] = Some s1" using lv True x by simp
        show ?thesis
        proof (cases "\<not> IsGameOver s1 \<and> \<not> move_written env (moves_played state)")
          case stop: True
          have r: "RunGame_loop env state history started log =
              Some (s1, history @ [move], log @ rl @ [CouldNotSend (FormatMove move) ?np])"
            using notover np go rd Some vm True x stop by simp
          have "aborted_by env s1 (history @ [move]) (CouldNotSend (FormatMove move) ?np)"
            using stop mp GetNextPlayer_step [OF mp] by (simp add: aborted_by_def)
          with r stop t1 mp lt lp1 Suc.prems(4) show ?thesis
            by (intro exI [of _ s1] exI [of _ "[move]"]
                  exI [of _ "log @ rl @ [CouldNotSend (FormatMove move) ?np]"]) auto
        next
          case cont: False
          have r: "RunGame_loop env state history started log =
              RunGame_loop env s1 (history @ [move]) True (log @ rl)"
            using notover np go rd Some vm True x cont
            by (subst RunGame_loop.simps) (auto simp del: RunGame_loop.simps)
          have k: "k = nat (60 - moves_played s1)" using Suc.hyps(2) mp by simp
          have "\<exists>state' moves log'.
             RunGame_loop env s1 (history @ [move]) True (log @ rl) =
               Some (state', (history @ [move]) @ moves, log')
             \<and> legal_play s1 moves = Some state'
             \<and> tidy state' \<and> moves_played state' \<le> 60
             \<and> int (length ((history @ [move]) @ moves)) = moves_played state'
             \<and> (if IsGameOver state' then log' = log @ rl
                 else \<exists>pre cause. log' = (log @ rl) @ pre @ [cause]
                        \<and> aborted_by env state' ((history @ [move]) @ moves) cause)"
            using t1 mp lt Suc.prems(2,4) by (intro Suc.hyps(1) [OF k]) simp_all
          then obtain state' moves log' where
            r': "RunGame_loop env s1 (history @ [move]) True (log @ rl) =
               Some (state', (history @ [move]) @ moves, log')"
            and lp: "legal_play s1 moves = Some state'"
            and inv: "tidy state'" "moves_played state' \<le> 60"
              "int (length ((history @ [move]) @ moves)) = moves_played state'"
            and out: "if IsGameOver state' then log' = log @ rl
                 else \<exists>pre cause. log' = (log @ rl) @ pre @ [cause]
                        \<and> aborted_by env state' ((history @ [move]) @ moves) cause"
            by blast
          have lp': "legal_play state (move # moves) = Some state'" using lv True x lp by simp
          from r r' have "RunGame_loop env state history started log =
              Some (state', history @ (move # moves), log')" by simp
          moreover from out rl have "if IsGameOver state' then log' = log
                 else \<exists>pre cause. log' = log @ pre @ [cause]
                        \<and> aborted_by env state' (history @ (move # moves)) cause"
            by (simp split: if_splits)
          ultimately show ?thesis using lp' inv
            by (intro exI [of _ state'] exI [of _ "move # moves"] exI [of _ log']) simp
        qed
      qed
    qed
  qed
qed

declare RunGame_loop.simps [simp del]

text \<open>The match of 60 moves, run once.\<close>

lemma RunGame_loop_env60:
  "RunGame_loop env60 InitialState [] False [] = Some (final60, game60, [])"
  by code_simp

subsection \<open>The result of a match\<close>

lemma RunGame_result:
  "\<exists>state history log sc.
     RunGame_loop env InitialState [] False [] = Some (state, history, log)
     \<and> RunGame env = Some (\<lparr>transcript = EncodeHistory history, score = sc\<rparr>, log)
     \<and> RunGame_score state = Some sc
     \<and> legal_play InitialState history = Some state
     \<and> tidy state \<and> moves_played state \<le> 60 \<and> int (length history) = moves_played state
     \<and> (if IsGameOver state then log = []
         else \<exists>pre cause. log = pre @ [cause] \<and> aborted_by env state history cause)"
proof -
  have mp0: "moves_played InitialState = 0" by (simp add: InitialState_def Let_def)
  from RunGame_loop_result [of InitialState "[]" False env "[]", OF tidy_InitialState] mp0
  have "\<exists>state history log.
     RunGame_loop env InitialState [] False [] = Some (state, history, log)
     \<and> legal_play InitialState history = Some state
     \<and> tidy state \<and> moves_played state \<le> 60 \<and> int (length history) = moves_played state
     \<and> (if IsGameOver state then log = []
         else \<exists>pre cause. log = pre @ [cause] \<and> aborted_by env state history cause)"
    by (simp cong: if_cong)
  then obtain state history log where
    l: "RunGame_loop env InitialState [] False [] = Some (state, history, log)"
    and p: "legal_play InitialState history = Some state"
    and i: "tidy state" "moves_played state \<le> 60" "int (length history) = moves_played state"
    and out: "if IsGameOver state then log = []
         else \<exists>pre cause. log = pre @ [cause] \<and> aborted_by env state history cause"
    by auto
  have "\<exists>sc. RunGame_score state = Some sc"
    using GetNextPlayer_cases [of state] CalculateScore_tidy [OF i(1)]
    by (auto simp: RunGame_score_def)
  then obtain sc where sc: "RunGame_score state = Some sc" ..
  with l have "RunGame env = Some (\<lparr>transcript = EncodeHistory history, score = sc\<rparr>, log)"
    by (simp add: RunGame_def)
  with l sc p i out show ?thesis by blast
qed

text \<open>
  Claim C5. \<^verbatim>\<open>IsGameOver\<close> holds exactly when \<^verbatim>\<open>moves_played\<close> is at least 60: it does not
  look at the board, so a position without legal moves does not end a match. \<^verbatim>\<open>RunGame\<close>
  returns for every behaviour of the two players, and the moves of its transcript are each
  legal where they are played. When the loop is left by the move count, nothing was
  diagnosed, the match has exactly 60 plies, and the score is \<^verbatim>\<open>CalculateScore\<close> of the final
  board: the number of discs of the first mover minus the number of discs of the second.
  Otherwise the match was cut short before 60 plies with a diagnostic.
\<close>

theorem completed_match_sixty_plies_disc_differential:
  "IsGameOver any_state = (60 \<le> moves_played any_state)
   \<and> (\<exists>state history log sc.
         RunGame_loop env InitialState [] False [] = Some (state, history, log)
         \<and> RunGame env = Some (\<lparr>transcript = EncodeHistory history, score = sc\<rparr>, log)
         \<and> legal_play InitialState history = Some state
         \<and> (if IsGameOver state
             then log = [] \<and> length history = 60 \<and> moves_played state = 60
               \<and> CalculateScore state = Some sc
               \<and> sc = int (discs state 1) - int (discs state 2)
             else log \<noteq> [] \<and> length history < 60 \<and> moves_played state < 60))"
proof -
  from RunGame_result [of env] obtain state history log sc where
    l: "RunGame_loop env InitialState [] False [] = Some (state, history, log)"
    and r: "RunGame env = Some (\<lparr>transcript = EncodeHistory history, score = sc\<rparr>, log)"
    and sc: "RunGame_score state = Some sc"
    and p: "legal_play InitialState history = Some state"
    and i: "tidy state" "moves_played state \<le> 60" "int (length history) = moves_played state"
    and out: "if IsGameOver state then log = []
         else \<exists>pre cause. log = pre @ [cause] \<and> aborted_by env state history cause"
    by blast
  have "if IsGameOver state
        then log = [] \<and> length history = 60 \<and> moves_played state = 60
          \<and> CalculateScore state = Some sc
          \<and> sc = int (discs state 1) - int (discs state 2)
        else log \<noteq> [] \<and> length history < 60 \<and> moves_played state < 60"
  proof (cases "IsGameOver state")
    case True
    with i have "moves_played state = 60" "length history = 60"
      by (simp_all add: IsGameOver_def MAX_MOVES_def)
    moreover from True sc have "CalculateScore state = Some sc" by (simp add: RunGame_score_def)
    moreover from this CalculateScore_tidy [OF i(1)]
    have "sc = int (discs state 1) - int (discs state 2)" by (simp add: discs_def)
    ultimately show ?thesis using True out by simp
  next
    case False
    with i have "moves_played state < 60" "length history < 60"
      by (simp_all add: IsGameOver_def MAX_MOVES_def)
    with False out show ?thesis by auto
  qed
  moreover have "IsGameOver any_state = (60 \<le> moves_played any_state)"
    by (simp add: IsGameOver_def MAX_MOVES_def)
  ultimately show ?thesis using l r p by blast
qed

theorem completed_match_sixty_plies_disc_differential_witness:
  "RunGame env60 =
     Some (\<lparr>transcript = ''C3B2A1C4C5B4A3A4A5B6A2A6A7A8B3C1B1B5B7B8C2C6C7C8D1D2D3D6D7D8E1E2E3E6E7E8F1F2F3F4F5F6F7F8G1G2G3G4G5G6G7G8H1H2H3H4H5H6H7H8'',
            score = - 10\<rparr>, [])
   \<and> IsGameOver final60 \<and> length game60 = 60
   \<and> discs final60 1 = 27 \<and> discs final60 2 = 37"
proof -
  have d: "discs final60 1 = 27" "discs final60 2 = 37" by code_simp+
  have t: "EncodeHistory game60 = ''C3B2A1C4C5B4A3A4A5B6A2A6A7A8B3C1B1B5B7B8C2C6C7C8D1D2D3D6D7D8E1E2E3E6E7E8F1F2F3F4F5F6F7F8G1G2G3G4G5G6G7G8H1H2H3H4H5H6H7H8''"
    by code_simp
  from completed_match_sixty_plies_disc_differential [where env = env60 and any_state = final60]
  obtain sc where g: "IsGameOver final60 = (60 \<le> moves_played final60)"
    and r: "RunGame env60 = Some (\<lparr>transcript = EncodeHistory game60, score = sc\<rparr>, [])"
    and c: "if IsGameOver final60
             then length game60 = 60 \<and> sc = int (discs final60 1) - int (discs final60 2)
             else False"
    unfolding RunGame_loop_env60 by (auto split: if_splits)
  from g have o: "IsGameOver final60" by (simp add: final60_def)
  with c d have "sc = - 10" "length game60 = 60" by simp_all
  with r t o d show ?thesis by simp
qed




subsection \<open>Sixty legal moves\<close>

lemma filter_all:
  "length (filter P xs) = length xs \<Longrightarrow> x \<in> set xs \<Longrightarrow> P x"
proof (induction xs)
  case Nil
  then show ?case by simp
next
  case (Cons y ys)
  have le: "length (filter P ys) \<le> length ys" by (rule length_filter_le)
  show ?case
  proof (cases "P y")
    case True
    with Cons show ?thesis by auto
  next
    case False
    with Cons.prems(1) le show ?thesis by simp
  qed
qed

lemma full_board_after_60:
  assumes "legal_play InitialState moves = Some state" "length moves = 60"
  shows "\<forall>r c. ValidCoords r c \<longrightarrow> cell (s_fields state) r c \<noteq> 0"
proof -
  from legal_play_invariant [OF assms(1) tidy_InitialState] assms(2) occupied_InitialState
  have "length (occupied_cells state) = 64" by simp
  then have "length (filter (\<lambda>(r, c). cell (s_fields state) r c \<noteq> 0) all_cells) = length all_cells"
    by (simp add: occupied_cells_def length_all_cells)
  from filter_all [OF this] show ?thesis by (auto simp: set_all_cells)
qed

lemma full_board_no_moves:
  assumes "\<forall>r c. ValidCoords r c \<longrightarrow> cell (s_fields state) r c \<noteq> 0"
  shows "ListValidMoves state = Some []"
proof -
  have "filter (\<lambda>(r, c). candidate (\<lambda>x. x \<noteq> 0) (s_fields state) r c) all_cells = []"
    using assms by (auto simp: filter_empty_conv candidate_def)
  then show ?thesis by (simp add: ListValidMoves_eq legal_cells_def)
qed

text \<open>
  Claim C6, as amended. Every sequence of exactly 60 moves, each legal where it is played
  and applied with \<^verbatim>\<open>ExecuteMove\<close> starting from \<^verbatim>\<open>InitialState\<close>, ends on a full board: no
  cell of the final board is empty (4 discs at the start and one more with each move make
  64), the game is over by the move count, and no legal move is left.
\<close>

theorem sixty_legal_moves_fill_the_board:
  assumes "legal_play InitialState moves = Some state" "length moves = 60"
  shows "(\<forall>r c. ValidCoords r c \<longrightarrow> cell (s_fields state) r c \<noteq> 0)
     \<and> length (occupied_cells state) = 64 \<and> IsGameOver state \<and> ListValidMoves state = Some []"
proof -
  note f = full_board_after_60 [OF assms]
  from legal_play_invariant [OF assms(1) tidy_InitialState] assms(2) occupied_InitialState
  have n: "length (occupied_cells state) = 64" and mp: "moves_played state = moves_played InitialState + 60"
    by simp_all
  have "moves_played InitialState = 0" by (simp add: InitialState_def Let_def)
  with mp have "IsGameOver state" by (simp add: IsGameOver_def MAX_MOVES_def)
  with f n full_board_no_moves [OF f] show ?thesis by blast
qed

theorem sixty_legal_moves_fill_the_board_witness:
  "length game60 = 60 \<and> legal_play InitialState game60 = Some final60
   \<and> length (occupied_cells final60) = 64 \<and> IsGameOver final60
   \<and> ListValidMoves final60 = Some []"
proof -
  have n: "length game60 = 60" by (simp add: game60_def)
  from RunGame_loop_result [of InitialState "[]" False env60 "[]", OF tidy_InitialState]
  have p: "legal_play InitialState game60 = Some final60"
    unfolding RunGame_loop_env60 by (auto simp: InitialState_def Let_def)
  from sixty_legal_moves_fill_the_board [OF p n] p n show ?thesis by simp
qed

text \<open>Claim C6 as it is worded, that some sequence of 60 legal moves leaves an empty cell,
  is false.\<close>

theorem sixty_legal_moves_empty_cell_counterexample:
  "\<not> (\<exists>moves state r c. length moves = 60 \<and> legal_play InitialState moves = Some state
         \<and> ValidCoords r c \<and> cell (s_fields state) r c = 0)"
  using full_board_after_60 by blast

end
